theory Spec2Isabelle
  imports Main "HOL-Library.AList" "HOL-Library.Multiset" "HOL-Library.Product_Lexorder"
    "HOL-Library.Sublist"
begin

section \<open>prconflict: review threads as conflict blocks\<close>

text \<open>
  A shallow embedding of \<^verbatim>\<open>cmd/prconflict/main.go\<close>: the aggregation loop of
  \<^verbatim>\<open>main\<close> (lines 126-148), the per-file preparation (lines 156-168),
  \<^verbatim>\<open>injectThreads\<close>, \<^verbatim>\<open>buildBlock\<close>, \<^verbatim>\<open>sanitize\<close> and \<^verbatim>\<open>nonEmpty\<close>.
  Go strings are byte strings, so they are \<^typ>\<open>string\<close> (a list of 8-bit characters).
  Go's \<^verbatim>\<open>int\<close> and \<^verbatim>\<open>int64\<close> are \<^typ>\<open>int\<close>: identifiers are only compared, and the one
  subtraction \<^verbatim>\<open>th.line - 1\<close> is followed by a bounds check that rejects the wrapped value
  exactly as it rejects the unwrapped one.
\<close>

subsection \<open>Decimal numbers as \<^verbatim>\<open>fmt\<close> prints them\<close>

definition digitChar :: "nat \<Rightarrow> char" where
  "digitChar d = ''0123456789'' ! d"

fun decimal :: "nat \<Rightarrow> string" where
  "decimal n = (if n < 10 then [digitChar n] else decimal (n div 10) @ [digitChar (n mod 10)])"

declare decimal.simps [simp del]

text \<open>The verb \<^verbatim>\<open>%6d\<close>: right-aligned in six columns, wider numbers are not cut.\<close>

definition padLeft :: "nat \<Rightarrow> string \<Rightarrow> string" where
  "padLeft width s = replicate (width - length s) (CHR '' '') @ s"

subsection \<open>Time stamps\<close>

text \<open>
  A \<^verbatim>\<open>time.Time\<close> is represented by the calendar fields of its instant in UTC (the
  location of every time stamp the GitHub API delivers). \<^verbatim>\<open>Before\<close> compares instants,
  which is the lexicographic order of the fields; \<^verbatim>\<open>Format("2006-01-02 15:04")\<close> prints
  year, month, day, hour and minute, zero-padded.
\<close>

record time =
  year :: int
  month :: nat
  day :: nat
  hour :: nat
  minute :: nat
  second :: nat
  nanosecond :: nat

definition timeKey :: "time \<Rightarrow> int \<times> nat \<times> nat \<times> nat \<times> nat \<times> nat \<times> nat" where
  "timeKey t = (year t, month t, day t, hour t, minute t, second t, nanosecond t)"

definition Before :: "time \<Rightarrow> time \<Rightarrow> bool" where
  "Before t u = (timeKey t < timeKey u)"

text \<open>The zero \<^verbatim>\<open>time.Time\<close>: January 1, year 1, 00:00:00 UTC.\<close>

definition zeroTime :: time where
  "zeroTime = \<lparr>year = 1, month = 1, day = 1, hour = 0, minute = 0, second = 0, nanosecond = 0\<rparr>"

text \<open>\<^verbatim>\<open>appendInt\<close> of package time: sign, then the digits zero-padded to the width.\<close>

definition appendInt :: "int \<Rightarrow> nat \<Rightarrow> string" where
  "appendInt x width =
     (let ds = decimal (nat \<bar>x\<bar>)
      in (if x < 0 then ''-'' else []) @ replicate (width - length ds) (CHR ''0'') @ ds)"

definition Format :: "time \<Rightarrow> string" where
  "Format t =
     appendInt (year t) 4 @ ''-'' @ appendInt (int (month t)) 2 @ ''-'' @ appendInt (int (day t)) 2
       @ '' '' @ appendInt (int (hour t)) 2 @ '':'' @ appendInt (int (minute t)) 2"

subsection \<open>Records of the program\<close>

text \<open>\<^verbatim>\<open>commentInfo\<close> and \<^verbatim>\<open>lineThread\<close> (lines 39-50). The field \<^verbatim>\<open>id\<close> is \<open>id_c\<close> here.\<close>

record commentInfo =
  id_c :: int
  user :: string
  body :: string
  created :: time

record lineThread =
  line :: int
  comments :: "commentInfo list"

text \<open>
  The fields of \<^verbatim>\<open>github.PullRequestComment\<close> that \<^verbatim>\<open>main\<close> reads. Each is a pointer
  in go-github, so each is optional; the \<^verbatim>\<open>Get\<close> accessors return the zero value for
  a nil pointer.
\<close>

record ghUser =
  Login :: "string option"

record prComment =
  ID :: "int option"
  Path :: "string option"
  Line :: "int option"
  User :: "ghUser option"
  Body :: "string option"
  CreatedAt :: "time option"

definition GetID :: "prComment \<Rightarrow> int" where
  "GetID c = (case ID c of None \<Rightarrow> 0 | Some i \<Rightarrow> i)"

definition GetPath :: "prComment \<Rightarrow> string" where
  "GetPath c = (case Path c of None \<Rightarrow> [] | Some p \<Rightarrow> p)"

definition GetLine :: "prComment \<Rightarrow> int" where
  "GetLine c = (case Line c of None \<Rightarrow> 0 | Some l \<Rightarrow> l)"

definition GetLogin :: "ghUser option \<Rightarrow> string" where
  "GetLogin u = (case u of None \<Rightarrow> [] | Some v \<Rightarrow> (case Login v of None \<Rightarrow> [] | Some l \<Rightarrow> l))"

definition GetBody :: "prComment \<Rightarrow> string" where
  "GetBody c = (case Body c of None \<Rightarrow> [] | Some b \<Rightarrow> b)"

definition GetCreatedAt :: "prComment \<Rightarrow> time" where
  "GetCreatedAt c = (case CreatedAt c of None \<Rightarrow> zeroTime | Some t \<Rightarrow> t)"

subsection \<open>Helper utilities (lines 299-309)\<close>

definition nonEmpty :: "string \<Rightarrow> string" where
  "nonEmpty v = (if v = [] then ''unknown'' else v)"

text \<open>
  \<^verbatim>\<open>strings.NewReplacer("\n", " ", "\r", " ", "*", "", "/", "")\<close>: every old string is one
  byte, so the replacer maps byte by byte.
\<close>

definition replaceByte :: "char \<Rightarrow> string" where
  "replaceByte c =
     (if c = CHR 0x0A then '' ''
      else if c = CHR 0x0D then '' ''
      else if c = CHR ''*'' then []
      else if c = CHR ''/'' then []
      else [c])"

definition Replace :: "string \<Rightarrow> string" where
  "Replace s = concat (map replaceByte s)"

text \<open>
  \<^verbatim>\<open>strings.TrimSpace\<close> removes the leading and the trailing white space, as
  \<^verbatim>\<open>unicode.IsSpace\<close> defines it, of a UTF-8 string: the six ASCII characters, and the
  code points U+0085, U+00A0, U+1680, U+2000 to U+200A, U+2028, U+2029, U+202F, U+205F and
  U+3000 in their UTF-8 encodings. A byte that is not part of such an encoding stops the
  trimming (an invalid byte decodes to U+FFFD, which is no space).
\<close>

definition asciiSpace :: "char \<Rightarrow> bool" where
  "asciiSpace c = (c \<in> set [CHR 0x09, CHR 0x0A, CHR 0x0B, CHR 0x0C, CHR 0x0D, CHR 0x20])"

definition wideSpaces :: "string list" where
  "wideSpaces =
     [[CHR 0xC2, CHR 0x85], [CHR 0xC2, CHR 0xA0], [CHR 0xE1, CHR 0x9A, CHR 0x80],
      [CHR 0xE2, CHR 0x80, CHR 0x80], [CHR 0xE2, CHR 0x80, CHR 0x81],
      [CHR 0xE2, CHR 0x80, CHR 0x82], [CHR 0xE2, CHR 0x80, CHR 0x83],
      [CHR 0xE2, CHR 0x80, CHR 0x84], [CHR 0xE2, CHR 0x80, CHR 0x85],
      [CHR 0xE2, CHR 0x80, CHR 0x86], [CHR 0xE2, CHR 0x80, CHR 0x87],
      [CHR 0xE2, CHR 0x80, CHR 0x88], [CHR 0xE2, CHR 0x80, CHR 0x89],
      [CHR 0xE2, CHR 0x80, CHR 0x8A], [CHR 0xE2, CHR 0x80, CHR 0xA8],
      [CHR 0xE2, CHR 0x80, CHR 0xA9], [CHR 0xE2, CHR 0x80, CHR 0xAF],
      [CHR 0xE2, CHR 0x81, CHR 0x9F], [CHR 0xE3, CHR 0x80, CHR 0x80]]"

text \<open>
  The width in bytes of the white-space rune at the head of \<open>s\<close>, or 0 when \<open>s\<close> does not
  start with one. \<open>wide\<close> lists the multi-byte encodings.
\<close>

definition spaceWidth :: "string list \<Rightarrow> string \<Rightarrow> nat" where
  "spaceWidth wide s =
     (case s of
        [] \<Rightarrow> 0
      | c # _ \<Rightarrow>
          if asciiSpace c then 1
          else (case find (\<lambda>r. prefix r s) wide of None \<Rightarrow> 0 | Some r \<Rightarrow> length r))"

function trimLeading :: "string list \<Rightarrow> string \<Rightarrow> string" where
  "trimLeading wide s =
     (if spaceWidth wide s = 0 then s else trimLeading wide (drop (spaceWidth wide s) s))"
  by pat_completeness auto
termination
  by (relation "measure (\<lambda>(wide, s). length s)")
     (auto simp: spaceWidth_def split: list.splits)

declare trimLeading.simps [simp del]

text \<open>
  Trailing runes are read backwards by \<^verbatim>\<open>utf8.DecodeLastRuneInString\<close>; each encoding
  above is one start byte followed by continuation bytes, so a trailing white-space rune is
  exactly a suffix equal to one of the encodings: a prefix of the reversed string.
\<close>

definition TrimSpace :: "string \<Rightarrow> string" where
  "TrimSpace s = rev (trimLeading (map rev wideSpaces) (rev (trimLeading wideSpaces s)))"

definition sanitize :: "string \<Rightarrow> string" where
  "sanitize s = TrimSpace (Replace s)"

subsection \<open>\<^verbatim>\<open>buildBlock\<close> (lines 279-288)\<close>

definition commentLine :: "commentInfo \<Rightarrow> string" where
  "commentLine c = Format (created c) @ '' '' @ user c @ '': '' @ sanitize (body c)"

definition buildBlock :: "commentInfo list \<Rightarrow> string list" where
  "buildBlock cs =
     (let header = ''<<<<<<< REVIEW THREAD ('' @ decimal (length cs) @ '')'';
          lines = [header];
          lines = lines @ map commentLine cs;
          lines = lines @ [''======='']
      in lines)"

subsection \<open>The aggregation loop of \<^verbatim>\<open>main\<close> (lines 126-148)\<close>

text \<open>
  \<^verbatim>\<open>map[string]map[int]*lineThread\<close> is an association list of association lists with
  distinct keys, in order of first insertion. Go iterates a map in no fixed order; the only
  iterations are the ones of lines 156-164: the order over the files is a parameter of the
  driver, and the threads of a file are sorted before they are used.
\<close>

type_synonym lineMap = "(int \<times> lineThread) list"
type_synonym fileThreads = "(string \<times> lineMap) list"

definition newCommentInfo :: "prComment \<Rightarrow> commentInfo" where
  "newCommentInfo c =
     \<lparr>id_c = GetID c,
      user = nonEmpty (GetLogin (User c)),
      body = nonEmpty (GetBody c),
      created = GetCreatedAt c\<rparr>"

text \<open>Lines 134-147: create the two map entries on first encounter, then append.\<close>

definition appendComment :: "fileThreads \<Rightarrow> prComment \<Rightarrow> fileThreads" where
  "appendComment fileThreads c =
     (let path = GetPath c;
          ln = GetLine c;
          fileThreads1 =
            (if map_of fileThreads path = None then AList.update path [] fileThreads
             else fileThreads);
          lineMap = (case map_of fileThreads1 path of None \<Rightarrow> [] | Some m \<Rightarrow> m);
          lineMap1 =
            (if map_of lineMap ln = None
             then AList.update ln \<lparr>line = ln, comments = []\<rparr> lineMap
             else lineMap);
          th = (case map_of lineMap1 ln of None \<Rightarrow> \<lparr>line = ln, comments = []\<rparr> | Some t \<Rightarrow> t);
          th1 = th\<lparr>comments := comments th @ [newCommentInfo c]\<rparr>
      in AList.update path (AList.update ln th1 lineMap1) fileThreads1)"

definition aggregateStep :: "int set \<Rightarrow> fileThreads \<Rightarrow> prComment \<Rightarrow> fileThreads" where
  "aggregateStep unresolvedIDs fileThreads c =
     (if Path c = None \<or> Line c = None then fileThreads
      else if GetID c \<notin> unresolvedIDs then fileThreads
      else appendComment fileThreads c)"

definition aggregate :: "int set \<Rightarrow> prComment list \<Rightarrow> fileThreads" where
  "aggregate unresolvedIDs cs = foldl (aggregateStep unresolvedIDs) [] cs"

text \<open>The thread stored for a path and a line, if any.\<close>

definition threadAt :: "fileThreads \<Rightarrow> string \<Rightarrow> int \<Rightarrow> lineThread option" where
  "threadAt fileThreads path ln =
     (case map_of fileThreads path of None \<Rightarrow> None | Some lineMap \<Rightarrow> map_of lineMap ln)"

subsection \<open>Preparing the threads of a file (lines 157-164)\<close>

text \<open>
  \<^verbatim>\<open>sort.Slice(t.comments, ...)\<close> with the order \<^verbatim>\<open>created.Before\<close> is a parameter
  \<open>sortSlice\<close>: package sort documents that the result is sorted and a permutation of
  the input, and that equal elements may change places. \<open>sortSliceContract\<close> is that
  documented behaviour for the order of line 160. The algorithm of the library itself
  follows in the next subsection.
\<close>

definition sortSliceContract :: "(commentInfo list \<Rightarrow> commentInfo list) \<Rightarrow> bool" where
  "sortSliceContract sortSlice =
     (\<forall>cs. mset (sortSlice cs) = mset cs
        \<and> sorted_wrt (\<lambda>a b. \<not> Before (created b) (created a)) (sortSlice cs))"

text \<open>
  The second \<^verbatim>\<open>sort.Slice\<close> (line 164) orders the threads by line, descending. The lines
  of one file are distinct map keys, so every sort gives the same list (lemma
  \<open>sorted_by_line_unique\<close> below); it is written as an insertion sort.
\<close>

definition prepareThreads ::
  "(commentInfo list \<Rightarrow> commentInfo list) \<Rightarrow> lineMap \<Rightarrow> lineThread list" where
  "prepareThreads sortSlice lineMap =
     sort_key (\<lambda>t. - line t) (map (\<lambda>(ln, t). t\<lparr>comments := sortSlice (comments t)\<rparr>) lineMap)"

subsection \<open>\<^verbatim>\<open>sort.Slice\<close> as package sort implements it\<close>






































subsection \<open>\<^verbatim>\<open>injectThreads\<close> (lines 242-277)\<close>

datatype error = ReadFileError | ErrTooLong | WriteFileError

text \<open>What \<^verbatim>\<open>log.Printf\<close> and \<^verbatim>\<open>log.Println\<close> report, by call site.\<close>

datatype logEntry =
  AllResolved
  | NothingAligned
  | FileError string error
  | LineVanished string int

text \<open>
  The loop of lines 256-266. The read \<^verbatim>\<open>src[idx]\<close> and the slices \<^verbatim>\<open>src[:idx]\<close>,
  \<^verbatim>\<open>src[idx+1:]\<close> stand behind the bounds check, so they are in range. Both inner
  \<^verbatim>\<open>append\<close>s copy into a fresh array before the outer one writes into the array of
  \<^verbatim>\<open>src\<close>, so the splice is the plain concatenation.
\<close>

fun injectLoop :: "string \<Rightarrow> lineThread list \<Rightarrow> string list \<Rightarrow> string list \<times> logEntry list" where
  "injectLoop path [] src = (src, [])"
| "injectLoop path (th # threads) src =
     (let idx = line th - 1 in
      if idx < 0 \<or> idx \<ge> int (length src) then
        (case injectLoop path threads src of
           (src1, lg) \<Rightarrow> (src1, LineVanished path (line th) # lg))
      else
        (let block = buildBlock (comments th);
             trailer = ''>>>>>>> END REVIEW'';
             insertion = block @ ([src ! nat idx] @ [trailer])
         in injectLoop path threads (take (nat idx) src @ (insertion @ drop (nat idx + 1) src))))"

text \<open>
  \<^verbatim>\<open>bufio.Scanner\<close> with its default split function \<^verbatim>\<open>ScanLines\<close> and its default
  buffer limit of 64 KiB (lines 248-254): a line ends at a line feed or at the end of the
  data, one trailing carriage return is dropped, no token follows a final line feed, and a
  line that does not fit the buffer together with its line feed is \<^verbatim>\<open>ErrTooLong\<close>.
  \<open>cur\<close> holds the bytes of the line being read.
\<close>

definition dropCR :: "string \<Rightarrow> string" where
  "dropCR l = (if l \<noteq> [] \<and> last l = CHR 0x0D then butlast l else l)"

definition maxLineBytes :: nat where
  "maxLineBytes = 65535"

fun scanFrom :: "string \<Rightarrow> string \<Rightarrow> error + string list" where
  "scanFrom cur [] =
     (if cur = [] then Inr []
      else if length cur > maxLineBytes then Inl ErrTooLong
      else Inr [dropCR cur])"
| "scanFrom cur (c # cs) =
     (if c = CHR 0x0A then
        (if length cur > maxLineBytes then Inl ErrTooLong
         else (case scanFrom [] cs of Inl e \<Rightarrow> Inl e | Inr ls \<Rightarrow> Inr (dropCR cur # ls)))
      else scanFrom (cur @ [c]) cs)"

definition ScanLines :: "string \<Rightarrow> error + string list" where
  "ScanLines data = scanFrom [] data"

fun Join :: "string list \<Rightarrow> string \<Rightarrow> string" where
  "Join [] sep = []"
| "Join [l] sep = l"
| "Join (l # ls) sep = l @ sep @ Join ls sep"

text \<open>
  The part of the outside world the function touches: the files by path, the paths that
  refuse a write, the chunks written to standard output and the log.
\<close>

record world =
  files :: "string \<rightharpoonup> string"
  readonly :: "string set"
  stdout :: "string list"
  logs :: "logEntry list"

definition renderLine :: "nat \<times> string \<Rightarrow> string" where
  "renderLine p = padLeft 6 (decimal (fst p)) @ '' '' @ snd p @ [CHR 0x0A]"

definition injectThreads ::
  "string \<Rightarrow> lineThread list \<Rightarrow> bool \<Rightarrow> world \<Rightarrow> error option \<times> world" where
  "injectThreads path threads dry w =
     (case files w path of
        None \<Rightarrow> (Some ReadFileError, w)
      | Some data \<Rightarrow>
          (case ScanLines data of
             Inl e \<Rightarrow> (Some e, w)
           | Inr src0 \<Rightarrow>
               (case injectLoop path threads src0 of
                  (src, lg) \<Rightarrow>
                    (let w1 = w\<lparr>logs := logs w @ lg\<rparr> in
                     if dry then
                       (None,
                        w1\<lparr>stdout := stdout w1
                              @ ((''--- '' @ path @ '' (dry-run)'' @ [CHR 0x0A])
                                 # map renderLine (enumerate 1 src))\<rparr>)
                     else if path \<in> readonly w1 then (Some WriteFileError, w1)
                     else (None,
                           w1\<lparr>files := (files w1)(path \<mapsto> Join src [CHR 0x0A] @ [CHR 0x0A])\<rparr>)))))"

subsection \<open>The driver: \<^verbatim>\<open>main\<close> from line 116 on\<close>

definition injectFile ::
  "(commentInfo list \<Rightarrow> commentInfo list) \<Rightarrow> bool \<Rightarrow> world \<Rightarrow> string \<times> lineMap \<Rightarrow> world" where
  "injectFile sortSlice dry w entry =
     (case injectThreads (fst entry) (prepareThreads sortSlice (snd entry)) dry w of
        (None, w1) \<Rightarrow> w1
      | (Some err, w1) \<Rightarrow> w1\<lparr>logs := logs w1 @ [FileError (fst entry) err]\<rparr>)"

text \<open>
  \<open>unresolvedIDs\<close> and \<open>cs\<close> are the results of \<^verbatim>\<open>getUnresolvedCommentIDs\<close> and
  \<^verbatim>\<open>fetchReviewComments\<close>.
\<close>

text \<open>
  \<^verbatim>\<open>for path, lineMap := range fileThreads\<close> (line 156) visits the entries of a Go map in
  an order the language leaves open. \<open>rangeOrder\<close> is the order of one run: some permutation
  of the entries (\<open>rangeContract\<close>).
\<close>

definition rangeContract :: "(fileThreads \<Rightarrow> fileThreads) \<Rightarrow> bool" where
  "rangeContract rangeOrder = (\<forall>fileThreads. mset (rangeOrder fileThreads) = mset fileThreads)"

definition mainFrom ::
  "(commentInfo list \<Rightarrow> commentInfo list) \<Rightarrow> (fileThreads \<Rightarrow> fileThreads) \<Rightarrow> bool \<Rightarrow> int set
     \<Rightarrow> prComment list \<Rightarrow> world \<Rightarrow> world" where
  "mainFrom sortSlice rangeOrder dry unresolvedIDs cs w =
     (if unresolvedIDs = {} then w\<lparr>logs := logs w @ [AllResolved]\<rparr>
      else
        (let fileThreads = aggregate unresolvedIDs cs in
         if fileThreads = [] then w\<lparr>logs := logs w @ [NothingAligned]\<rparr>
         else foldl (injectFile sortSlice dry) w (rangeOrder fileThreads)))"

subsection \<open>What the specification asks for\<close>

text \<open>
  Section 4.2, steps 1 to 3: the comments that survive the filter and belong to the thread
  of a path and a line, in input order.
\<close>

definition surviving :: "int set \<Rightarrow> string \<Rightarrow> int \<Rightarrow> prComment list \<Rightarrow> prComment list" where
  "surviving U p l cs = filter (\<lambda>c. Path c = Some p \<and> Line c = Some l \<and> GetID c \<in> U) cs"

text \<open>
  Section 4.3, step 3, and the property of injection index stability: every line of the
  original file that carries a thread is replaced by the block of that thread, the line
  itself and the end marker; every other line stays. \<open>k\<close> is the number of the first line.
\<close>

fun expectedLines :: "lineThread list \<Rightarrow> int \<Rightarrow> string list \<Rightarrow> string list" where
  "expectedLines threads k [] = []"
| "expectedLines threads k (l # ls) =
     (case find (\<lambda>t. line t = k) threads of
        None \<Rightarrow> [l]
      | Some t \<Rightarrow> buildBlock (comments t) @ [l, ''>>>>>>> END REVIEW''])
     @ expectedLines threads (k + 1) ls"

text \<open>The association lists stand for maps: no key occurs twice, no file has an empty map.\<close>

definition wfThreads :: "fileThreads \<Rightarrow> bool" where
  "wfThreads ft =
     (distinct (map fst ft) \<and> (\<forall>(p, lm)\<in>set ft. distinct (map fst lm) \<and> lm \<noteq> []))"

text \<open>A function that meets \<open>sortSliceContract\<close>: an insertion sort by creation time.\<close>

definition insertionSortSlice :: "commentInfo list \<Rightarrow> commentInfo list" where
  "insertionSortSlice cs = sort_key (\<lambda>c. timeKey (created c)) cs"

text \<open>
  White space as \<^verbatim>\<open>strings.TrimSpace\<close> sees it: a rune is one ASCII white-space byte
  or one of the multi-byte encodings; a white-space byte is a byte of such a rune.
\<close>

definition isSpaceRune :: "string list \<Rightarrow> string \<Rightarrow> bool" where
  "isSpaceRune wide r = ((case r of [c] \<Rightarrow> asciiSpace c | _ \<Rightarrow> False) \<or> r \<in> set wide)"

definition spaceByte :: "char \<Rightarrow> bool" where
  "spaceByte c = (asciiSpace c \<or> c \<in> set (concat wideSpaces))"

text \<open>The number of lines of a text in which a line feed ends every line.\<close>

definition lineFeeds :: "string \<Rightarrow> nat" where
  "lineFeeds s = length (filter (\<lambda>c. c = CHR 0x0A) s)"

subsection \<open>Example inputs\<close>

definition exampleTime :: time where
  "exampleTime = \<lparr>year = 2024, month = 3, day = 7, hour = 9, minute = 5, second = 0, nanosecond = 0\<rparr>"

definition exampleBody :: string where
  "exampleBody =
     [CHR '' '', CHR 0xC2, CHR 0xA0] @ ''a*b/c'' @ [CHR 0x0D, CHR 0x0A] @ ''d ======= ''
       @ [CHR 0xE2, CHR 0x80, CHR 0x80, CHR 0x09]"

definition emptyBodyComment :: prComment where
  "emptyBodyComment =
     \<lparr>ID = Some 7, Path = Some ''a.go'', Line = Some 3, User = Some \<lparr>Login = Some ''bob''\<rparr>,
      Body = Some [], CreatedAt = None\<rparr>"

definition noLoginComment :: prComment where
  "noLoginComment =
     \<lparr>ID = Some 8, Path = Some ''a.go'', Line = Some 3, User = Some \<lparr>Login = None\<rparr>,
      Body = Some ''fix this'', CreatedAt = Some exampleTime\<rparr>"

definition exampleThread :: lineThread where
  "exampleThread =
     \<lparr>line = 2,
      comments =
        [\<lparr>id_c = 5, user = ''alice'', body = exampleBody, created = exampleTime\<rparr>,
         \<lparr>id_c = 9, user = ''bob'', body = ''done?'',
          created = exampleTime\<lparr>minute := 40\<rparr>\<rparr>]\<rparr>"

definition at_minute :: "nat \<Rightarrow> time" where
  "at_minute m = \<lparr>year = 2024, month = 3, day = 7, hour = 9, minute = m, second = 0, nanosecond = 0\<rparr>"

definition exampleComment :: "int \<Rightarrow> string option \<Rightarrow> int option \<Rightarrow> nat \<Rightarrow> prComment" where
  "exampleComment i p l m =
     \<lparr>ID = Some i, Path = p, Line = l, User = Some \<lparr>Login = Some ''alice''\<rparr>,
      Body = Some ''note'', CreatedAt = Some (at_minute m)\<rparr>"

definition exampleInfo :: "int \<Rightarrow> nat \<Rightarrow> commentInfo" where
  "exampleInfo i m = \<lparr>id_c = i, user = ''alice'', body = ''note'', created = at_minute m\<rparr>"

definition filterExample :: "prComment list" where
  "filterExample =
     [exampleComment 5 (Some ''a.go'') (Some 3) 1,
      exampleComment 6 (Some ''a.go'') (Some 3) 2,
      exampleComment 9 None None 3]"

definition orderExample :: "prComment list" where
  "orderExample =
     [exampleComment 1 (Some ''a.go'') (Some 3) 2,
      exampleComment 2 (Some ''a.go'') (Some 3) 1,
      exampleComment 3 (Some ''a.go'') (Some 3) 3]"

definition orderLineMap :: lineMap where
  "orderLineMap =
     [(3, \<lparr>line = 3, comments = [exampleInfo 1 2, exampleInfo 2 1, exampleInfo 3 3]\<rparr>)]"

definition orderThread :: lineThread where
  "orderThread = \<lparr>line = 3, comments = [exampleInfo 2 1, exampleInfo 1 2, exampleInfo 3 3]\<rparr>"



definition stabilityExample :: "prComment list" where
  "stabilityExample =
     [exampleComment 3 (Some ''a.go'') (Some 5) 1,
      exampleComment 1 (Some ''a.go'') (Some 8) 2,
      exampleComment 2 (Some ''a.go'') (Some 2) 3]"

definition stabilityLineMap :: lineMap where
  "stabilityLineMap =
     [(5, \<lparr>line = 5, comments = [exampleInfo 3 1]\<rparr>),
      (8, \<lparr>line = 8, comments = [exampleInfo 1 2]\<rparr>),
      (2, \<lparr>line = 2, comments = [exampleInfo 2 3]\<rparr>)]"

definition eightLines :: "string list" where
  "eightLines = [''l1'', ''l2'', ''l3'', ''l4'', ''l5'', ''l6'', ''l7'', ''l8'']"

definition farThread :: lineThread where
  "farThread = \<lparr>line = 10, comments = [exampleInfo 4 1]\<rparr>"

definition worldWith :: "string \<Rightarrow> world" where
  "worldWith data = \<lparr>files = [''a.go'' \<mapsto> data], readonly = {}, stdout = [], logs = []\<rparr>"

definition fourLinesData :: string where
  "fourLinesData = ''l1'' @ [CHR 0x0A] @ ''l2'' @ [CHR 0x0A] @ ''l3'' @ [CHR 0x0A] @ ''l4'' @ [CHR 0x0A]"

section \<open>Sanitizing a comment body\<close>

lemma trimLeading_suffix: "suffix (trimLeading wide s) s"
proof (induction wide s rule: trimLeading.induct)
  case (1 wide s)
  show ?case
  proof (cases "spaceWidth wide s = 0")
    case True
    then show ?thesis by (simp add: trimLeading.simps)
  next
    case False
    then have "suffix (trimLeading wide (drop (spaceWidth wide s) s)) (drop (spaceWidth wide s) s)"
      using "1.IH" by simp
    moreover have "trimLeading wide s = trimLeading wide (drop (spaceWidth wide s) s)"
      using False by (subst trimLeading.simps) simp
    ultimately show ?thesis
      using suffix_drop suffix_order.trans by metis
  qed
qed

lemma trimLeading_no_space: "spaceWidth wide (trimLeading wide s) = 0"
proof (induction wide s rule: trimLeading.induct)
  case (1 wide s)
  show ?case
  proof (cases "spaceWidth wide s = 0")
    case True
    then show ?thesis by (simp add: trimLeading.simps)
  next
    case False
    then show ?thesis
      using "1.IH" by (subst trimLeading.simps) simp
  qed
qed

text \<open>A string that starts with no white space has no prefix that starts with white space.\<close>

lemma spaceWidth_prefix:
  assumes "prefix p t" and "spaceWidth wide t = 0" and "[] \<notin> set wide"
  shows "spaceWidth wide p = 0"
proof (cases p)
  case Nil
  then show ?thesis by (simp add: spaceWidth_def)
next
  case (Cons c p')
  then obtain t' where t: "t = c # t'"
    using assms(1) by (auto simp: prefix_def)
  have nc: "\<not> asciiSpace c"
    using assms(2) t by (auto simp: spaceWidth_def split: if_splits)
  have "find (\<lambda>r. prefix r t) wide = None"
  proof (cases "find (\<lambda>r. prefix r t) wide")
    case None
    then show ?thesis .
  next
    case (Some r)
    then have "r \<in> set wide"
      by (auto simp: find_Some_iff)
    then have "r \<noteq> []" using assms(3) by auto
    with Some assms(2) t nc show ?thesis
      by (simp add: spaceWidth_def)
  qed
  then have "\<forall>r\<in>set wide. \<not> prefix r t"
    by (simp add: find_None_iff)
  then have "\<forall>r\<in>set wide. \<not> prefix r p"
    using assms(1) prefix_order.trans by blast
  then have "find (\<lambda>r. prefix r p) wide = None"
    by (simp add: find_None_iff)
  with nc Cons show ?thesis
    by (simp add: spaceWidth_def)
qed

lemma TrimSpace_prefix_of_trimmed: "prefix (TrimSpace s) (trimLeading wideSpaces s)"
proof -
  have "suffix (trimLeading (map rev wideSpaces) (rev (trimLeading wideSpaces s)))
          (rev (trimLeading wideSpaces s))"
    by (rule trimLeading_suffix)
  then show ?thesis
    unfolding TrimSpace_def by (metis suffix_to_prefix rev_rev_ident)
qed

lemma TrimSpace_sublist: "sublist (TrimSpace s) s"
  unfolding sublist_altdef'
  using TrimSpace_prefix_of_trimmed trimLeading_suffix by blast

lemma wideSpaces_nonempty: "[] \<notin> set wideSpaces"
  by (simp add: wideSpaces_def)

lemma TrimSpace_no_leading: "spaceWidth wideSpaces (TrimSpace s) = 0"
  using TrimSpace_prefix_of_trimmed trimLeading_no_space wideSpaces_nonempty
  by (rule spaceWidth_prefix)

lemma TrimSpace_no_trailing: "spaceWidth (map rev wideSpaces) (rev (TrimSpace s)) = 0"
  by (simp add: TrimSpace_def trimLeading_no_space)

lemma set_Replace:
  "set (Replace s) \<inter> {CHR 0x0A, CHR 0x0D, CHR ''*'', CHR ''/''} = {}"
  by (induction s) (auto simp: Replace_def replaceByte_def)

lemma Replace_map_filter:
  "Replace s = map (\<lambda>c. if c = CHR 0x0A \<or> c = CHR 0x0D then CHR '' '' else c)
                 (filter (\<lambda>c. c \<noteq> CHR ''*'' \<and> c \<noteq> CHR ''/'') s)"
  by (induction s) (auto simp: Replace_def replaceByte_def)

lemma isSpaceRune_iff:
  "isSpaceRune wide r \<longleftrightarrow> (\<exists>c. r = [c] \<and> asciiSpace c) \<or> r \<in> set wide"
proof (cases r)
  case Nil
  then show ?thesis by (simp add: isSpaceRune_def)
next
  case (Cons c r')
  then show ?thesis by (cases r') (simp_all add: isSpaceRune_def)
qed

lemma spaceWidth_rune:
  assumes "spaceWidth wide s \<noteq> 0"
  shows "isSpaceRune wide (take (spaceWidth wide s) s)"
proof (cases s)
  case Nil
  then show ?thesis using assms by (simp add: spaceWidth_def)
next
  case (Cons c s')
  show ?thesis
  proof (cases "asciiSpace c")
    case True
    then have "spaceWidth wide s = 1" "take 1 s = [c]"
      by (simp_all add: Cons spaceWidth_def)
    with True show ?thesis
      by (simp add: isSpaceRune_iff)
  next
    case False
    then obtain r where r: "find (\<lambda>r. prefix r s) wide = Some r"
      using assms Cons by (auto simp: spaceWidth_def split: option.splits)
    then have mem: "r \<in> set wide" and "prefix r s"
      by (auto simp: find_Some_iff)
    then have "take (length r) s = r"
      by (auto simp: prefix_def)
    moreover have "spaceWidth wide s = length r"
      using r False unfolding spaceWidth_def Cons by simp
    ultimately show ?thesis
      using mem by (simp add: isSpaceRune_iff)
  qed
qed

lemma trimLeading_runes:
  "\<exists>rs. s = concat rs @ trimLeading wide s \<and> (\<forall>r\<in>set rs. isSpaceRune wide r)"
proof (induction wide s rule: trimLeading.induct)
  case (1 wide s)
  show ?case
  proof (cases "spaceWidth wide s = 0")
    case True
    then have "s = concat [] @ trimLeading wide s"
      by (simp add: trimLeading.simps)
    then show ?thesis by (metis empty_iff empty_set)
  next
    case False
    define n where "n = spaceWidth wide s"
    obtain rs where rs: "drop n s = concat rs @ trimLeading wide (drop n s)"
      "\<forall>r\<in>set rs. isSpaceRune wide r"
      using "1.IH" False unfolding n_def by blast
    have t: "trimLeading wide s = trimLeading wide (drop n s)"
      using False unfolding n_def by (subst trimLeading.simps) simp
    have "s = take n s @ drop n s" by simp
    also have "\<dots> = concat (take n s # rs) @ trimLeading wide s"
      using rs(1) t by simp
    finally have "s = concat (take n s # rs) @ trimLeading wide s" .
    moreover have "\<forall>r\<in>set (take n s # rs). isSpaceRune wide r"
      using rs(2) spaceWidth_rune [OF False] by (simp add: n_def)
    ultimately show ?thesis by blast
  qed
qed

lemma isSpaceRune_rev: "isSpaceRune (map rev wide) r \<Longrightarrow> isSpaceRune wide (rev r)"
  by (auto simp: isSpaceRune_iff)

lemma TrimSpace_runes:
  "\<exists>lead trail. s = concat lead @ TrimSpace s @ concat trail
     \<and> (\<forall>r\<in>set lead. isSpaceRune wideSpaces r) \<and> (\<forall>r\<in>set trail. isSpaceRune wideSpaces r)"
proof -
  define t where "t = trimLeading wideSpaces s"
  obtain lead where lead: "s = concat lead @ t" "\<forall>r\<in>set lead. isSpaceRune wideSpaces r"
    using trimLeading_runes [of s wideSpaces] unfolding t_def by blast
  obtain rs where rs: "rev t = concat rs @ trimLeading (map rev wideSpaces) (rev t)"
    "\<forall>r\<in>set rs. isSpaceRune (map rev wideSpaces) r"
    using trimLeading_runes [of "rev t" "map rev wideSpaces"] by blast
  have "t = rev (rev t)" by simp
  also have "\<dots> = rev (trimLeading (map rev wideSpaces) (rev t)) @ rev (concat rs)"
    by (subst rs(1)) simp
  also have "\<dots> = TrimSpace s @ concat (map rev (rev rs))"
    by (simp add: TrimSpace_def t_def rev_concat)
  finally have "s = concat lead @ TrimSpace s @ concat (map rev (rev rs))"
    using lead(1) by simp
  moreover have "\<forall>r\<in>set (map rev (rev rs)). isSpaceRune wideSpaces r"
    using rs(2) isSpaceRune_rev by auto
  ultimately show ?thesis
    using lead(2) by blast
qed

lemma spaceRune_bytes: "isSpaceRune wideSpaces r \<Longrightarrow> c \<in> set r \<Longrightarrow> spaceByte c"
  by (auto simp: isSpaceRune_iff spaceByte_def)

lemma filter_space_runes:
  assumes "\<forall>r\<in>set rs. isSpaceRune wideSpaces r"
  shows "filter (\<lambda>c. \<not> spaceByte c \<and> Q c) (concat rs) = []"
  using assms spaceRune_bytes by (fastforce simp: filter_empty_conv)

lemma spaceByte_ascii: "asciiSpace c \<Longrightarrow> spaceByte c"
  by (simp add: spaceByte_def)

lemma asciiSpace_replaced:
  "asciiSpace (CHR 0x0A)" "asciiSpace (CHR 0x0D)" "asciiSpace (CHR '' '')"
  by (simp_all add: asciiSpace_def)

lemma filter_replaceByte:
  "filter (\<lambda>c. \<not> spaceByte c \<and> c \<noteq> CHR ''*'' \<and> c \<noteq> CHR ''/'') (replaceByte c)
     = filter (\<lambda>c. \<not> spaceByte c \<and> c \<noteq> CHR ''*'' \<and> c \<noteq> CHR ''/'') [c]"
proof -
  consider "c = CHR 0x0A" | "c = CHR 0x0D" | "c = CHR ''*''" | "c = CHR ''/''"
    | "c \<noteq> CHR 0x0A" "c \<noteq> CHR 0x0D" "c \<noteq> CHR ''*''" "c \<noteq> CHR ''/''"
    by blast
  then show ?thesis
  proof cases
    case 1
    then show ?thesis
      by (simp add: replaceByte_def spaceByte_ascii asciiSpace_replaced)
  next
    case 2
    then show ?thesis
      by (simp add: replaceByte_def spaceByte_ascii asciiSpace_replaced)
  next
    case 3
    then show ?thesis by (simp add: replaceByte_def)
  next
    case 4
    then show ?thesis by (simp add: replaceByte_def)
  next
    case 5
    then show ?thesis by (simp add: replaceByte_def)
  qed
qed

lemma filter_Replace:
  "filter (\<lambda>c. \<not> spaceByte c \<and> c \<noteq> CHR ''*'' \<and> c \<noteq> CHR ''/'') (Replace s)
     = filter (\<lambda>c. \<not> spaceByte c \<and> c \<noteq> CHR ''*'' \<and> c \<noteq> CHR ''/'') s"
proof (induction s)
  case Nil
  then show ?case by (simp add: Replace_def)
next
  case (Cons c s)
  let ?P = "\<lambda>c. \<not> spaceByte c \<and> c \<noteq> CHR ''*'' \<and> c \<noteq> CHR ''/''"
  have "filter ?P (Replace (c # s)) = filter ?P (replaceByte c) @ filter ?P (Replace s)"
    by (simp add: Replace_def)
  also have "\<dots> = filter ?P [c] @ filter ?P s"
    by (simp only: filter_replaceByte Cons.IH)
  also have "\<dots> = filter ?P (c # s)"
    by simp
  finally show ?case .
qed

lemma markers_not_space:
  "\<not> spaceByte (CHR ''<'')" "\<not> spaceByte (CHR ''='')" "\<not> spaceByte (CHR ''>'')"
  by (simp_all add: spaceByte_def asciiSpace_def wideSpaces_def)

lemma marker_kept:
  assumes "c \<in> {CHR ''<'', CHR ''='', CHR ''>''}"
  shows "\<not> spaceByte c \<and> c \<noteq> CHR ''*'' \<and> c \<noteq> CHR ''/''"
proof -
  consider "c = CHR ''<''" | "c = CHR ''=''" | "c = CHR ''>''"
    using assms by blast
  then show ?thesis
    by cases (simp_all add: markers_not_space)
qed

text \<open>The four characters the replacer names are gone from the result.\<close>

lemma sanitize_clean:
  "set (sanitize s) \<inter> {CHR 0x0A, CHR 0x0D, CHR ''*'', CHR ''/''} = {}"
proof -
  have "sublist (sanitize s) (Replace s)"
    unfolding sanitize_def by (rule TrimSpace_sublist)
  then have "set (sanitize s) \<subseteq> set (Replace s)"
    by (rule set_mono_sublist)
  with set_Replace [of s] show ?thesis
    by blast
qed

text \<open>
  Claim C2, as the code has it. \<open>sanitize\<close> deletes every \<^verbatim>\<open>*\<close> and \<^verbatim>\<open>/\<close>, replaces
  each line feed and each carriage return by one space (a CR LF pair by two), and trims the
  white space at both ends. The string so rewritten is the result between a run of
  white-space runes on the left and one on the right, and the result neither starts nor
  ends with a white-space rune: exactly the white space at the ends is removed. The result
  holds no line feed, carriage return, \<^verbatim>\<open>*\<close> or \<^verbatim>\<open>/\<close>. Every other byte that is
  not a white-space byte is kept, in order; among them the characters \<^verbatim>\<open><\<close>, \<^verbatim>\<open>=\<close>
  and \<^verbatim>\<open>>\<close>, of which the markers are built.
\<close>

theorem sanitize_strips_comment_delimiters:
  "(\<exists>lead trail.
       map (\<lambda>c. if c = CHR 0x0A \<or> c = CHR 0x0D then CHR '' '' else c)
         (filter (\<lambda>c. c \<noteq> CHR ''*'' \<and> c \<noteq> CHR ''/'') s)
         = concat lead @ sanitize s @ concat trail
       \<and> (\<forall>r\<in>set lead. isSpaceRune wideSpaces r) \<and> (\<forall>r\<in>set trail. isSpaceRune wideSpaces r))
   \<and> sublist (sanitize s)
       (map (\<lambda>c. if c = CHR 0x0A \<or> c = CHR 0x0D then CHR '' '' else c)
          (filter (\<lambda>c. c \<noteq> CHR ''*'' \<and> c \<noteq> CHR ''/'') s))
   \<and> set (sanitize s) \<inter> {CHR 0x0A, CHR 0x0D, CHR ''*'', CHR ''/''} = {}
   \<and> spaceWidth wideSpaces (sanitize s) = 0
   \<and> spaceWidth (map rev wideSpaces) (rev (sanitize s)) = 0
   \<and> filter (\<lambda>c. \<not> spaceByte c \<and> c \<noteq> CHR ''*'' \<and> c \<noteq> CHR ''/'') (sanitize s)
       = filter (\<lambda>c. \<not> spaceByte c \<and> c \<noteq> CHR ''*'' \<and> c \<noteq> CHR ''/'') s
   \<and> filter (\<lambda>c. c \<in> {CHR ''<'', CHR ''='', CHR ''>''}) (sanitize s)
       = filter (\<lambda>c. c \<in> {CHR ''<'', CHR ''='', CHR ''>''}) s"
proof -
  let ?P = "\<lambda>c. \<not> spaceByte c \<and> c \<noteq> CHR ''*'' \<and> c \<noteq> CHR ''/''"
  let ?M = "\<lambda>c. c \<in> {CHR ''<'', CHR ''='', CHR ''>''}"
  obtain lead trail where dec: "Replace s = concat lead @ sanitize s @ concat trail"
    and lead: "\<forall>r\<in>set lead. isSpaceRune wideSpaces r"
    and trail: "\<forall>r\<in>set trail. isSpaceRune wideSpaces r"
    using TrimSpace_runes [of "Replace s"] unfolding sanitize_def by blast
  have runes: "\<exists>lead trail. Replace s = concat lead @ sanitize s @ concat trail
       \<and> (\<forall>r\<in>set lead. isSpaceRune wideSpaces r) \<and> (\<forall>r\<in>set trail. isSpaceRune wideSpaces r)"
    using dec lead trail by blast
  have sub: "sublist (sanitize s) (Replace s)"
    unfolding sanitize_def by (rule TrimSpace_sublist)
  then have "set (sanitize s) \<subseteq> set (Replace s)"
    by (rule set_mono_sublist)
  with set_Replace [of s]
  have clean: "set (sanitize s) \<inter> {CHR 0x0A, CHR 0x0D, CHR ''*'', CHR ''/''} = {}"
    by blast
  have "filter ?P (Replace s) = filter ?P (sanitize s)"
    by (subst dec) (simp add: filter_space_runes [OF lead] filter_space_runes [OF trail])
  then have keep: "filter ?P (sanitize s) = filter ?P s"
    by (simp add: filter_Replace)
  have "filter ?M xs = filter ?M (filter ?P xs)" for xs
  proof (induction xs)
    case Nil
    then show ?case by simp
  next
    case (Cons x xs)
    then show ?case
      using marker_kept [of x] by (cases "?M x") (simp_all del: insert_iff)
  qed
  then have "filter ?M (sanitize s) = filter ?M (filter ?P (sanitize s))"
    and "filter ?M s = filter ?M (filter ?P s)"
    by blast+
  then have markers: "filter ?M (sanitize s) = filter ?M s"
    using keep by simp
  show ?thesis
    using runes sub clean keep markers
    by (simp add: Replace_map_filter [symmetric] sanitize_def TrimSpace_no_leading
        TrimSpace_no_trailing)
qed

theorem sanitize_strips_comment_delimiters_witness:
  "sanitize exampleBody = ''abc  d =======''
   \<and> filter (\<lambda>c. c \<in> {CHR ''<'', CHR ''='', CHR ''>''}) (sanitize exampleBody) = ''=======''
   \<and> set (sanitize exampleBody) \<inter> {CHR 0x0A, CHR 0x0D, CHR ''*'', CHR ''/''} = {}
   \<and> spaceWidth wideSpaces (sanitize exampleBody) = 0
   \<and> spaceWidth (map rev wideSpaces) (rev (sanitize exampleBody)) = 0"
proof -
  have result: "sanitize exampleBody = ''abc  d =======''"
    by code_simp
  have markers: "filter (\<lambda>c. c \<in> {CHR ''<'', CHR ''='', CHR ''>''}) exampleBody = ''=======''"
    by (simp add: exampleBody_def)
  show ?thesis
    using sanitize_strips_comment_delimiters [of exampleBody] result markers
    by (simp del: insert_iff)
qed

text \<open>
  Claim C2 as stated fails: a body made of marker characters comes back unchanged, and a
  CR LF pair leaves two spaces, not one.
\<close>

theorem sanitize_keeps_marker_characters:
  "sanitize ''>>>>>>> END REVIEW'' = ''>>>>>>> END REVIEW''
   \<and> sanitize ''======='' = ''=======''
   \<and> sanitize (''a'' @ [CHR 0x0D, CHR 0x0A] @ ''b'') = ''a  b''"
  by code_simp

section \<open>Building a comment record\<close>

text \<open>
  Claim C9, as the code has it. \<^verbatim>\<open>nonEmpty\<close> is applied to the login and to the body
  alike (lines 144 and 145): the sentinel replaces an empty or absent login and an empty or
  absent body, so no aggregated comment has an empty body.
\<close>

theorem sentinel_for_login_and_body:
  "user (newCommentInfo c) = (if GetLogin (User c) = [] then ''unknown'' else GetLogin (User c))
   \<and> body (newCommentInfo c) = (if GetBody c = [] then ''unknown'' else GetBody c)
   \<and> body (newCommentInfo c) \<noteq> []"
  by (simp add: newCommentInfo_def nonEmpty_def)

theorem sentinel_for_login_and_body_witness:
  "user (newCommentInfo noLoginComment) = ''unknown''
   \<and> body (newCommentInfo noLoginComment) = ''fix this''"
  using sentinel_for_login_and_body [of noLoginComment]
  by (simp add: noLoginComment_def GetLogin_def GetBody_def)

text \<open>
  Claim C9 as stated fails: an empty body does not pass through, it is stored and rendered
  as the sentinel.
\<close>

theorem empty_body_becomes_unknown:
  "body (newCommentInfo emptyBodyComment) = ''unknown''
   \<and> commentLine (newCommentInfo emptyBodyComment) = ''0001-01-01 00:00 bob: unknown''"
  by code_simp

section \<open>The aggregation\<close>

lemma appendComment_eq:
  "appendComment ft c =
     (let lm = (case map_of ft (GetPath c) of None \<Rightarrow> [] | Some m \<Rightarrow> m);
          th = (case map_of lm (GetLine c) of
                  None \<Rightarrow> \<lparr>line = GetLine c, comments = []\<rparr> | Some t \<Rightarrow> t)
      in AList.update (GetPath c)
           (AList.update (GetLine c) (th\<lparr>comments := comments th @ [newCommentInfo c]\<rparr>) lm) ft)"
  by (auto simp: appendComment_def Let_def update_conv' split: option.splits)

lemma threadAt_appendComment:
  "threadAt (appendComment ft c) p l =
     (if p = GetPath c \<and> l = GetLine c
      then Some ((case threadAt ft p l of None \<Rightarrow> \<lparr>line = l, comments = []\<rparr> | Some t \<Rightarrow> t)
                  \<lparr>comments := comments (case threadAt ft p l of
                        None \<Rightarrow> \<lparr>line = l, comments = []\<rparr> | Some t \<Rightarrow> t) @ [newCommentInfo c]\<rparr>)
      else threadAt ft p l)"
  by (auto simp: appendComment_eq threadAt_def Let_def update_conv' split: option.splits)

lemma threadAt_aggregateStep:
  "threadAt (aggregateStep U ft c) p l =
     (if Path c = Some p \<and> Line c = Some l \<and> GetID c \<in> U
      then Some ((case threadAt ft p l of None \<Rightarrow> \<lparr>line = l, comments = []\<rparr> | Some t \<Rightarrow> t)
                  \<lparr>comments := comments (case threadAt ft p l of
                        None \<Rightarrow> \<lparr>line = l, comments = []\<rparr> | Some t \<Rightarrow> t) @ [newCommentInfo c]\<rparr>)
      else threadAt ft p l)"
  by (auto simp: aggregateStep_def threadAt_appendComment GetPath_def GetLine_def)

lemma threadAt_foldl:
  "threadAt (foldl (aggregateStep U) ft cs) p l =
     (case threadAt ft p l of
        None \<Rightarrow> (if surviving U p l cs = [] then None
                 else Some \<lparr>line = l, comments = map newCommentInfo (surviving U p l cs)\<rparr>)
      | Some t \<Rightarrow> Some (t\<lparr>comments := comments t @ map newCommentInfo (surviving U p l cs)\<rparr>))"
proof (induction cs arbitrary: ft)
  case Nil
  then show ?case by (simp add: surviving_def split: option.splits)
next
  case (Cons c cs)
  show ?case
    by (simp add: Cons.IH threadAt_aggregateStep surviving_def split: option.splits)
qed

lemma set_update_subset: "set (AList.update k v al) \<subseteq> insert (k, v) (set al)"
  by (induction al) auto

lemma wfThreads_appendComment:
  assumes "wfThreads ft"
  shows "wfThreads (appendComment ft c)"
proof -
  define lm where "lm = (case map_of ft (GetPath c) of None \<Rightarrow> [] | Some m \<Rightarrow> m)"
  define th where "th = (case map_of lm (GetLine c) of
                  None \<Rightarrow> \<lparr>line = GetLine c, comments = []\<rparr> | Some t \<Rightarrow> t)"
  define lm' where
    "lm' = AList.update (GetLine c) (th\<lparr>comments := comments th @ [newCommentInfo c]\<rparr>) lm"
  have eq: "appendComment ft c = AList.update (GetPath c) lm' ft"
    by (simp add: appendComment_eq lm_def th_def lm'_def Let_def)
  have "distinct (map fst lm)"
  proof (cases "map_of ft (GetPath c)")
    case None
    then show ?thesis by (simp add: lm_def)
  next
    case (Some m)
    then have "(GetPath c, m) \<in> set ft" by (rule map_of_SomeD)
    with assms Some show ?thesis by (auto simp: wfThreads_def lm_def)
  qed
  then have d: "distinct (map fst lm')" and n: "lm' \<noteq> []"
    by (simp_all add: lm'_def distinct_update)
  have "distinct (map fst (AList.update (GetPath c) lm' ft))"
    using assms by (simp add: wfThreads_def distinct_update)
  moreover have "\<forall>(p, m)\<in>set (AList.update (GetPath c) lm' ft). distinct (map fst m) \<and> m \<noteq> []"
    using assms d n set_update_subset [of "GetPath c" lm' ft]
    by (auto simp: wfThreads_def)
  ultimately show ?thesis
    by (simp add: eq wfThreads_def)
qed

lemma wfThreads_foldl:
  "wfThreads ft \<Longrightarrow> wfThreads (foldl (aggregateStep U) ft cs)"
  by (induction cs arbitrary: ft) (simp_all add: aggregateStep_def wfThreads_appendComment)

lemma wfThreads_aggregate: "wfThreads (aggregate U cs)"
  unfolding aggregate_def by (rule wfThreads_foldl) (simp add: wfThreads_def)

lemma threadAt_entry:
  assumes "wfThreads ft" and "(p, lm) \<in> set ft" and "(l, t) \<in> set lm"
  shows "threadAt ft p l = Some t"
proof -
  have "map_of ft p = Some lm"
    using assms(1,2) by (simp add: wfThreads_def)
  moreover have "distinct (map fst lm)"
    using assms(1,2) by (auto simp: wfThreads_def)
  then have "map_of lm l = Some t"
    using assms(3) by simp
  ultimately show ?thesis
    by (simp add: threadAt_def)
qed

lemma threadAt_aggregate:
  "threadAt (aggregate U cs) p l =
     (if surviving U p l cs = [] then None
      else Some \<lparr>line = l, comments = map newCommentInfo (surviving U p l cs)\<rparr>)"
proof -
  have "threadAt [] p l = None"
    by (simp add: threadAt_def)
  then show ?thesis
    by (simp add: aggregate_def threadAt_foldl)
qed

lemma aggregate_entry:
  assumes "(p, lm) \<in> set (aggregate U cs)" and "(l, t) \<in> set lm"
  shows "surviving U p l cs \<noteq> []"
    and "t = \<lparr>line = l, comments = map newCommentInfo (surviving U p l cs)\<rparr>"
proof -
  have "threadAt (aggregate U cs) p l = Some t"
    using wfThreads_aggregate assms by (rule threadAt_entry)
  then show "surviving U p l cs \<noteq> []"
    and "t = \<lparr>line = l, comments = map newCommentInfo (surviving U p l cs)\<rparr>"
    by (auto simp: threadAt_aggregate split: if_splits)
qed

text \<open>
  Claim C3. The thread stored for a path and a line holds exactly the comments whose path
  and line are present and equal to that pair and whose identifier is in the unresolved set,
  in input order; there is no thread where no such comment exists. Every entry of the
  output is the thread found under its own path and line, and no path or line is entered
  twice.
\<close>

theorem aggregate_filters_and_groups:
  "threadAt (aggregate U cs) path ln =
     (if filter (\<lambda>c. Path c = Some path \<and> Line c = Some ln \<and> GetID c \<in> U) cs = [] then None
      else Some \<lparr>line = ln,
                 comments = map newCommentInfo
                   (filter (\<lambda>c. Path c = Some path \<and> Line c = Some ln \<and> GetID c \<in> U) cs)\<rparr>)
   \<and> distinct (map fst (aggregate U cs))
   \<and> (\<forall>(p, lineMap)\<in>set (aggregate U cs).
         distinct (map fst lineMap) \<and> lineMap \<noteq> []
         \<and> (\<forall>(l, t)\<in>set lineMap. threadAt (aggregate U cs) p l = Some t))"
proof -
  have "\<forall>(p, lineMap)\<in>set (aggregate U cs). \<forall>(l, t)\<in>set lineMap.
          threadAt (aggregate U cs) p l = Some t"
    using threadAt_entry [OF wfThreads_aggregate] by blast
  then show ?thesis
    using wfThreads_aggregate [of U cs] threadAt_aggregate [of U cs path ln]
    by (auto simp: wfThreads_def surviving_def)
qed

theorem aggregate_filters_and_groups_witness:
  "threadAt (aggregate {5, 9} filterExample) ''a.go'' 3
     = Some \<lparr>line = 3, comments = [exampleInfo 5 1]\<rparr>
   \<and> threadAt (aggregate {5, 9} filterExample) ''a.go'' 4 = None"
  using aggregate_filters_and_groups [of "{5, 9}" filterExample "''a.go''" 3]
    aggregate_filters_and_groups [of "{5, 9}" filterExample "''a.go''" 4]
  by (simp add: filterExample_def exampleComment_def exampleInfo_def newCommentInfo_def
      GetID_def GetLogin_def GetBody_def GetCreatedAt_def nonEmpty_def)

section \<open>The annotation block\<close>

lemma decimal_small: "n < 10 \<Longrightarrow> decimal n = [digitChar n]"
  by (simp add: decimal.simps)

lemma decimal_two:
  "10 \<le> n \<Longrightarrow> n < 100 \<Longrightarrow> decimal n = [digitChar (n div 10), digitChar (n mod 10)]"
  by (subst decimal.simps) (simp add: decimal_small)

lemma decimal_three:
  assumes "100 \<le> n" and "n < 1000"
  shows "decimal n = [digitChar (n div 100), digitChar (n div 10 mod 10), digitChar (n mod 10)]"
proof -
  have "n div 10 div 10 = n div 100"
    by (simp add: div_mult2_eq [symmetric])
  moreover have "10 \<le> n div 10" "n div 10 < 100"
    using assms by auto
  ultimately show ?thesis
    using assms by (subst decimal.simps) (simp add: decimal_two)
qed

lemma decimal_four:
  assumes "1000 \<le> n" and "n < 10000"
  shows "decimal n = [digitChar (n div 1000), digitChar (n div 100 mod 10),
                digitChar (n div 10 mod 10), digitChar (n mod 10)]"
proof -
  have "n div 10 div 100 = n div 1000" "n div 10 div 10 = n div 100"
    by (simp_all add: div_mult2_eq [symmetric])
  moreover have "100 \<le> n div 10" "n div 10 < 1000"
    using assms by auto
  ultimately show ?thesis
    using assms by (subst decimal.simps) (simp add: decimal_three)
qed

lemma digitChar_0: "digitChar 0 = CHR ''0''"
  by (simp add: digitChar_def)

lemma replicate_small:
  "replicate 3 x = [x, x, x]" "replicate 2 x = [x, x]"
  by (simp_all add: numeral_eq_Suc)

lemma appendInt_two:
  assumes "n < 100"
  shows "appendInt (int n) 2 = [digitChar (n div 10), digitChar (n mod 10)]"
proof (cases "n < 10")
  case True
  then show ?thesis
    by (simp add: appendInt_def decimal_small digitChar_0)
next
  case False
  with assms show ?thesis
    by (simp add: appendInt_def decimal_two)
qed

lemma pad_four:
  assumes "n < 10000"
  shows "replicate (4 - length (decimal n)) (CHR ''0'') @ decimal n =
    [digitChar (n div 1000), digitChar (n div 100 mod 10),
     digitChar (n div 10 mod 10), digitChar (n mod 10)]"
proof -
  consider "n < 10" | "10 \<le> n" "n < 100" | "100 \<le> n" "n < 1000" | "1000 \<le> n"
    by linarith
  then show ?thesis
  proof cases
    case 1
    then show ?thesis by (simp add: decimal_small digitChar_0 replicate_small)
  next
    case 2
    then show ?thesis by (simp add: decimal_two digitChar_0 replicate_small)
  next
    case 3
    then show ?thesis by (simp add: decimal_three digitChar_0)
  next
    case 4
    with assms show ?thesis by (simp add: decimal_four)
  qed
qed

lemma appendInt_four:
  assumes "0 \<le> y" and "y \<le> 9999"
  shows "appendInt y 4 =
    [digitChar (nat y div 1000), digitChar (nat y div 100 mod 10),
     digitChar (nat y div 10 mod 10), digitChar (nat y mod 10)]"
proof -
  have "nat y < 10000" and "\<bar>y\<bar> = y" and "\<not> y < 0"
    using assms by auto
  then show ?thesis
    using pad_four [of "nat y"] by (simp add: appendInt_def)
qed

text \<open>
  The time stamp of a comment line has the layout \<^verbatim>\<open>YYYY-MM-DD HH:MM\<close>: sixteen
  characters, for every date of the years 0 to 9999.
\<close>

lemma Format_layout:
  assumes "0 \<le> year t" "year t \<le> 9999" "month t < 100" "day t < 100" "hour t < 100"
    "minute t < 100"
  shows "Format t =
    [digitChar (nat (year t) div 1000), digitChar (nat (year t) div 100 mod 10),
     digitChar (nat (year t) div 10 mod 10), digitChar (nat (year t) mod 10), CHR ''-'',
     digitChar (month t div 10), digitChar (month t mod 10), CHR ''-'',
     digitChar (day t div 10), digitChar (day t mod 10), CHR '' '',
     digitChar (hour t div 10), digitChar (hour t mod 10), CHR '':'',
     digitChar (minute t div 10), digitChar (minute t mod 10)]"
  using assms by (simp add: Format_def appendInt_two appendInt_four)

lemma buildBlock_eq:
  "buildBlock cs =
     (''<<<<<<< REVIEW THREAD ('' @ decimal (length cs) @ '')'') # map commentLine cs
       @ [''=======''] "
  by (simp add: buildBlock_def)

lemma length_buildBlock: "length (buildBlock cs) = length cs + 2"
  by (simp add: buildBlock_eq)

text \<open>
  Claim C5. A thread whose line is in range replaces that line by the opening marker with
  the number of comments, one line per comment in the stored order (time stamp, author,
  sanitized body), the separator, the original line and the end marker; the loop goes on
  with the spliced sequence.
\<close>

theorem annotation_block_format:
  assumes "1 \<le> line th" and "line th \<le> int (length src)"
  shows "injectLoop path (th # threads) src =
    injectLoop path threads
      (take (nat (line th - 1)) src
       @ [''<<<<<<< REVIEW THREAD ('' @ decimal (length (comments th)) @ '')'']
       @ map (\<lambda>c. Format (created c) @ '' '' @ user c @ '': '' @ sanitize (body c)) (comments th)
       @ [''======='', src ! nat (line th - 1), ''>>>>>>> END REVIEW'']
       @ drop (nat (line th)) src)"
proof -
  have idx: "\<not> (line th - 1 < 0 \<or> int (length src) \<le> line th - 1)"
    using assms by linarith
  have d: "nat (line th - 1) + 1 = nat (line th)"
    using assms by linarith
  have m: "map commentLine (comments th) =
      map (\<lambda>c. Format (created c) @ '' '' @ user c @ '': '' @ sanitize (body c)) (comments th)"
    by (simp add: commentLine_def)
  show ?thesis
    using idx d by (simp add: buildBlock_eq m Let_def del: One_nat_def)
qed

theorem annotation_block_format_witness:
  "1 \<le> line exampleThread \<and> line exampleThread \<le> int (length [''one'', ''two'', ''three''])
   \<and> injectLoop ''a.go'' [exampleThread] [''one'', ''two'', ''three''] =
       ([''one'',
         ''<<<<<<< REVIEW THREAD (2)'',
         ''2024-03-07 09:05 alice: abc  d ======='',
         ''2024-03-07 09:40 bob: done?'',
         ''======='',
         ''two'',
         ''>>>>>>> END REVIEW'',
         ''three''], [])"
proof -
  have h1: "1 \<le> line exampleThread"
    by (simp add: exampleThread_def)
  have h2: "line exampleThread \<le> int (length [''one'', ''two'', ''three''])"
    by (simp add: exampleThread_def)
  have "injectLoop ''a.go'' [exampleThread] [''one'', ''two'', ''three''] =
    injectLoop ''a.go'' []
      (take (nat (line exampleThread - 1)) [''one'', ''two'', ''three'']
       @ [''<<<<<<< REVIEW THREAD ('' @ decimal (length (comments exampleThread)) @ '')'']
       @ map (\<lambda>c. Format (created c) @ '' '' @ user c @ '': '' @ sanitize (body c))
           (comments exampleThread)
       @ [''======='', [''one'', ''two'', ''three''] ! nat (line exampleThread - 1),
          ''>>>>>>> END REVIEW'']
       @ drop (nat (line exampleThread)) [''one'', ''two'', ''three''])"
    using h1 h2 by (rule annotation_block_format)
  also have "\<dots> =
       ([''one'',
         ''<<<<<<< REVIEW THREAD (2)'',
         ''2024-03-07 09:05 alice: abc  d ======='',
         ''2024-03-07 09:40 bob: done?'',
         ''======='',
         ''two'',
         ''>>>>>>> END REVIEW'',
         ''three''], [])"
    by code_simp
  finally show ?thesis
    using h1 h2 by simp
qed

section \<open>The injection loop\<close>

lemma injectLoop_skip:
  assumes "line th < 1 \<or> int (length src) < line th"
  shows "injectLoop path (th # threads) src =
    (fst (injectLoop path threads src),
     LineVanished path (line th) # snd (injectLoop path threads src))"
proof -
  have "line th - 1 < 0 \<or> int (length src) \<le> line th - 1"
    using assms by linarith
  then show ?thesis
    by (simp add: Let_def split: prod.splits)
qed

lemma injectLoop_apply:
  assumes "1 \<le> line th" and "line th \<le> int (length src)"
  shows "injectLoop path (th # threads) src =
    injectLoop path threads
      (take (nat (line th - 1)) src
       @ buildBlock (comments th) @ [src ! nat (line th - 1), ''>>>>>>> END REVIEW'']
       @ drop (nat (line th)) src)"
proof -
  have idx: "\<not> (line th - 1 < 0 \<or> int (length src) \<le> line th - 1)"
    using assms by linarith
  have d: "nat (line th - 1) + 1 = nat (line th)"
    using assms by linarith
  show ?thesis
    using idx d by (simp add: Let_def del: One_nat_def)
qed

declare injectLoop.simps(2) [simp del]

lemma injectLoop_append:
  assumes "\<forall>t\<in>set threads. line t \<le> int (length xs)"
  shows "injectLoop path threads (xs @ ys) =
    (fst (injectLoop path threads xs) @ ys, snd (injectLoop path threads xs))"
  using assms
proof (induction threads arbitrary: xs)
  case Nil
  then show ?case by simp
next
  case (Cons th threads)
  have le: "line th \<le> int (length xs)" and rest: "\<forall>t\<in>set threads. line t \<le> int (length xs)"
    using Cons.prems by simp_all
  show ?case
  proof (cases "line th < 1")
    case True
    then have "injectLoop path (th # threads) (xs @ ys) =
        (fst (injectLoop path threads (xs @ ys)),
         LineVanished path (line th) # snd (injectLoop path threads (xs @ ys)))"
      by (intro injectLoop_skip) simp
    moreover have "injectLoop path (th # threads) xs =
        (fst (injectLoop path threads xs),
         LineVanished path (line th) # snd (injectLoop path threads xs))"
      using True by (intro injectLoop_skip) simp
    ultimately show ?thesis
      using Cons.IH [OF rest] by simp
  next
    case False
    then have ge: "1 \<le> line th" by simp
    define i where "i = nat (line th - 1)"
    define xs' where "xs' = take i xs
       @ buildBlock (comments th) @ [xs ! i, ''>>>>>>> END REVIEW''] @ drop (nat (line th)) xs"
    have i: "i < length xs" "nat (line th) = Suc i"
      using ge le by (auto simp: i_def)
    have "length xs \<le> length xs'"
      using i by (simp add: xs'_def)
    then have rest': "\<forall>t\<in>set threads. line t \<le> int (length xs')"
      using rest by fastforce
    have "injectLoop path (th # threads) (xs @ ys) = injectLoop path threads (xs' @ ys)"
      using ge le i by (subst injectLoop_apply) (simp_all add: xs'_def i_def nth_append)
    also have "\<dots> = (fst (injectLoop path threads xs') @ ys, snd (injectLoop path threads xs'))"
      using rest' by (rule Cons.IH)
    also have "injectLoop path threads xs' = injectLoop path (th # threads) xs"
      using ge le by (subst injectLoop_apply) (simp_all add: xs'_def i_def)
    finally show ?thesis .
  qed
qed

lemma expectedLines_append:
  "expectedLines threads k (xs @ ys) = expectedLines threads k xs @ expectedLines threads (k + int (length xs)) ys"
  by (induction xs arbitrary: k) (simp_all add: add.assoc)

lemma expectedLines_untouched:
  assumes "\<forall>t\<in>set threads. line t < k \<or> k + int (length ls) \<le> line t"
  shows "expectedLines threads k ls = ls"
  using assms
proof (induction ls arbitrary: k)
  case Nil
  then show ?case by simp
next
  case (Cons l ls)
  have "find (\<lambda>t. line t = k) threads = None"
    using Cons.prems by (fastforce simp: find_None_iff)
  moreover have "expectedLines threads (k + 1) ls = ls"
    using Cons.prems by (intro Cons.IH) fastforce
  ultimately show ?case by simp
qed

lemma expectedLines_Cons_other:
  assumes "line th < k \<or> k + int (length ls) \<le> line th"
  shows "expectedLines (th # threads) k ls = expectedLines threads k ls"
  using assms
proof (induction ls arbitrary: k)
  case Nil
  then show ?case by simp
next
  case (Cons l ls)
  have "line th \<noteq> k" using Cons.prems by auto
  moreover have "expectedLines (th # threads) (k + 1) ls = expectedLines threads (k + 1) ls"
    using Cons.prems by (intro Cons.IH) auto
  ultimately show ?case by simp
qed

lemma injectLoop_expectedLines:
  assumes "sorted_wrt (\<lambda>a b. line b < line a) threads"
  shows "fst (injectLoop path threads src) = expectedLines threads 1 src"
  using assms
proof (induction threads arbitrary: src)
  case Nil
  then show ?case by (simp add: expectedLines_untouched)
next
  case (Cons th threads)
  have below: "\<forall>t\<in>set threads. line t < line th"
    and sorted: "sorted_wrt (\<lambda>a b. line b < line a) threads"
    using Cons.prems by simp_all
  show ?case
  proof (cases "line th < 1 \<or> int (length src) < line th")
    case True
    then have "fst (injectLoop path (th # threads) src) = fst (injectLoop path threads src)"
      by (simp add: injectLoop_skip)
    also have "\<dots> = expectedLines threads 1 src"
      using sorted by (rule Cons.IH)
    also have "\<dots> = expectedLines (th # threads) 1 src"
      using True by (intro expectedLines_Cons_other [symmetric]) linarith
    finally show ?thesis .
  next
    case False
    then have ge: "1 \<le> line th" and le: "line th \<le> int (length src)"
      by simp_all
    define i where "i = nat (line th - 1)"
    define ins where "ins = buildBlock (comments th) @ [src ! i, ''>>>>>>> END REVIEW'']"
    have i: "i < length src" "nat (line th) = Suc i" "line th = int i + 1"
      using ge le by (auto simp: i_def)
    have src: "src = take i src @ src ! i # drop (Suc i) src"
      using i(1) by (simp add: id_take_nth_drop [symmetric])
    have small: "\<forall>t\<in>set threads. line t \<le> int (length (take i src))"
      using below i by fastforce
    have "injectLoop path (th # threads) src =
        injectLoop path threads
          (take (nat (line th - 1)) src
           @ buildBlock (comments th) @ [src ! nat (line th - 1), ''>>>>>>> END REVIEW'']
           @ drop (nat (line th)) src)"
      using ge le by (rule injectLoop_apply)
    then have "fst (injectLoop path (th # threads) src)
        = fst (injectLoop path threads (take i src @ (ins @ drop (Suc i) src)))"
      using i(2) by (simp add: ins_def i_def [symmetric])
    also have "\<dots> = fst (injectLoop path threads (take i src)) @ ins @ drop (Suc i) src"
      using small by (simp add: injectLoop_append)
    also have "fst (injectLoop path threads (take i src)) = expectedLines threads 1 (take i src)"
      using sorted by (rule Cons.IH)
    also have "expectedLines threads 1 (take i src) = expectedLines (th # threads) 1 (take i src)"
      using i by (intro expectedLines_Cons_other [symmetric]) simp
    finally have lhs: "fst (injectLoop path (th # threads) src)
        = expectedLines (th # threads) 1 (take i src) @ ins @ drop (Suc i) src" .
    have tail: "expectedLines (th # threads) (1 + int i + 1) (drop (Suc i) src) = drop (Suc i) src"
      using below i by (intro expectedLines_untouched) fastforce
    have "expectedLines (th # threads) 1 src
        = expectedLines (th # threads) 1 (take i src)
          @ expectedLines (th # threads) (1 + int i) (src ! i # drop (Suc i) src)"
      using i(1) by (subst src, subst expectedLines_append) simp
    also have "expectedLines (th # threads) (1 + int i) (src ! i # drop (Suc i) src)
        = ins @ drop (Suc i) src"
      using i(3) tail by (simp add: ins_def)
    finally show ?thesis
      using lhs by simp
  qed
qed

lemma strictly_descending_distinct:
  "sorted_wrt (\<lambda>a b. line b < line a) threads \<Longrightarrow> distinct (map line threads)"
  by (induction threads) auto

lemma find_by_line:
  "distinct (map line threads) \<Longrightarrow> th \<in> set threads \<Longrightarrow>
   find (\<lambda>t. line t = line th) threads = Some th"
  by (induction threads) auto

lemma length_injectLoop_in_range:
  assumes "\<forall>t\<in>set threads. line t \<le> int (length src)"
  shows "length (fst (injectLoop path threads src)) =
    length src + (\<Sum>t\<leftarrow>filter (\<lambda>t. 1 \<le> line t) threads. length (comments t) + 3)"
  using assms
proof (induction threads arbitrary: src)
  case Nil
  then show ?case by simp
next
  case (Cons th threads)
  have le: "line th \<le> int (length src)" and rest: "\<forall>t\<in>set threads. line t \<le> int (length src)"
    using Cons.prems by simp_all
  show ?case
  proof (cases "1 \<le> line th")
    case False
    then show ?thesis
      using Cons.IH [OF rest] by (simp add: injectLoop_skip)
  next
    case True
    define src' where "src' = take (nat (line th - 1)) src
       @ buildBlock (comments th) @ [src ! nat (line th - 1), ''>>>>>>> END REVIEW'']
       @ drop (nat (line th)) src"
    have len: "length src' = length src + (length (comments th) + 3)"
      using True le by (simp add: src'_def buildBlock_def)
    then have "\<forall>t\<in>set threads. line t \<le> int (length src')"
      using rest by fastforce
    then have "length (fst (injectLoop path threads src')) =
      length src' + (\<Sum>t\<leftarrow>filter (\<lambda>t. 1 \<le> line t) threads. length (comments t) + 3)"
      by (rule Cons.IH)
    moreover have "injectLoop path (th # threads) src = injectLoop path threads src'"
      unfolding src'_def using True le by (rule injectLoop_apply)
    ultimately show ?thesis
      using True len by simp
  qed
qed

lemma length_injectLoop:
  assumes "sorted_wrt (\<lambda>a b. line b < line a) threads"
  shows "length (fst (injectLoop path threads src)) =
    length src
    + (\<Sum>t\<leftarrow>filter (\<lambda>t. 1 \<le> line t \<and> line t \<le> int (length src)) threads.
         length (comments t) + 3)"
  using assms
proof (induction threads)
  case Nil
  then show ?case by simp
next
  case (Cons th threads)
  have below: "\<forall>t\<in>set threads. line t < line th"
    and sorted: "sorted_wrt (\<lambda>a b. line b < line a) threads"
    using Cons.prems by simp_all
  show ?case
  proof (cases "line th \<le> int (length src)")
    case False
    then show ?thesis
      using Cons.IH [OF sorted] by (simp add: injectLoop_skip)
  next
    case True
    then have all: "\<forall>t\<in>set (th # threads). line t \<le> int (length src)"
      using below by fastforce
    then have "filter (\<lambda>t. 1 \<le> line t \<and> line t \<le> int (length src)) (th # threads)
        = filter (\<lambda>t. 1 \<le> line t) (th # threads)"
      by (intro filter_cong) auto
    then show ?thesis
      using length_injectLoop_in_range [OF all, of path] by simp
  qed
qed

lemma injectLoop_app:
  "injectLoop path (xs @ ys) src =
     (fst (injectLoop path ys (fst (injectLoop path xs src))),
      snd (injectLoop path xs src) @ snd (injectLoop path ys (fst (injectLoop path xs src))))"
proof (induction xs arbitrary: src)
  case Nil
  then show ?case by simp
next
  case (Cons th xs)
  show ?case
  proof (cases "line th < 1 \<or> int (length src) < line th")
    case True
    then show ?thesis
      by (simp add: injectLoop_skip Cons.IH)
  next
    case False
    then show ?thesis
      by (simp add: injectLoop_apply Cons.IH)
  qed
qed

lemma injectLoop_all_vanished:
  "\<forall>t\<in>set threads. line t < 1 \<or> int (length src) < line t \<Longrightarrow>
   fst (injectLoop path threads src) = src"
  by (induction threads) (simp_all add: injectLoop_skip)

section \<open>The threads of a file\<close>

lemma set_prepareThreads:
  "set (prepareThreads srt lm) = (\<lambda>(ln, t). t\<lparr>comments := srt (comments t)\<rparr>) ` set lm"
  by (simp add: prepareThreads_def)

lemma prepareThreads_sorted:
  assumes "distinct (map fst lm)" and "\<forall>(ln, t)\<in>set lm. line t = ln"
  shows "sorted_wrt (\<lambda>a b. line b < line a) (prepareThreads srt lm)"
proof -
  define ys where "ys = map (\<lambda>(ln, t). t\<lparr>comments := srt (comments t)\<rparr>) lm"
  define f where "f = (\<lambda>t::lineThread. - line t)"
  have "map line ys = map fst lm"
    using assms(2) by (auto simp: ys_def)
  then have "distinct (map line ys)"
    using assms(1) by simp
  then have "distinct (map f ys)"
    by (simp add: f_def distinct_map inj_on_def)
  moreover have "mset (map f (sort_key f ys)) = mset (map f ys)"
    by simp
  ultimately have "distinct (map f (sort_key f ys))"
    using mset_eq_imp_distinct_iff by blast
  moreover have "sorted (map f (sort_key f ys))"
    by (rule sorted_sort_key)
  ultimately have "sorted_wrt (<) (map f (sort_key f ys))"
    by (simp add: strict_sorted_iff)
  then have "sorted_wrt (\<lambda>a b. f a < f b) (sort_key f ys)"
    by (simp add: sorted_wrt_map)
  then show ?thesis
    by (simp add: prepareThreads_def ys_def f_def)
qed

lemma aggregate_lineMap:
  assumes "(p, lm) \<in> set (aggregate U cs)"
  shows "distinct (map fst lm)" and "\<forall>(ln, t)\<in>set lm. line t = ln"
proof -
  show "distinct (map fst lm)"
    using wfThreads_aggregate [of U cs] assms by (auto simp: wfThreads_def)
  show "\<forall>(ln, t)\<in>set lm. line t = ln"
    using aggregate_entry(2) [OF assms] by fastforce
qed

lemma sorted_by_created:
  "sorted_wrt (\<lambda>a b. \<not> Before (created b) (created a)) cs
     = sorted (map (\<lambda>c. timeKey (created c)) cs)"
  by (simp add: Before_def sorted_map not_less)

lemma insertionSortSlice_contract: "sortSliceContract insertionSortSlice"
  by (simp add: sortSliceContract_def insertionSortSlice_def sorted_by_created)

lemma filter_same_key:
  "distinct (map f xs) \<Longrightarrow> k \<in> set xs \<Longrightarrow> filter (\<lambda>x. f k = f x) xs = [k]"
proof (induction xs)
  case Nil
  then show ?case by simp
next
  case (Cons x xs)
  show ?case
  proof (cases "k = x")
    case True
    then have "\<forall>y\<in>set xs. f k \<noteq> f y"
      using Cons.prems(1) by auto
    then have "filter (\<lambda>x. f k = f x) xs = []"
      by (simp add: filter_empty_conv)
    with True show ?thesis by simp
  next
    case False
    then have "k \<in> set xs" using Cons.prems(2) by simp
    then have "f k \<in> f ` set xs" by simp
    then have "f k \<noteq> f x"
      using Cons.prems(1) by auto
    with \<open>k \<in> set xs\<close> show ?thesis
      using Cons by simp
  qed
qed

lemma sorted_by_line_unique:
  fixes ts :: "lineThread list"
  assumes "distinct (map line ts)" and "mset ys = mset ts"
    and "sorted_wrt (\<lambda>a b. \<not> line a < line b) ys"
  shows "ys = sort_key (\<lambda>t. - line t) ts"
proof -
  define f where "f = (\<lambda>t::lineThread. - line t)"
  have dts: "distinct (map f ts)"
    using assms(1) by (simp add: f_def distinct_map inj_on_def)
  have "mset (map f ys) = mset (map f ts)"
    using assms(2) by (metis mset_map)
  then have dys: "distinct (map f ys)"
    using dts mset_eq_imp_distinct_iff by blast
  have set_eq: "set ys = set ts"
    using assms(2) by (rule mset_eq_setD)
  have "sorted (map f ys)"
    using assms(3) by (simp add: f_def sorted_map not_less)
  moreover have "filter (\<lambda>x. f k = f x) ys = filter (\<lambda>x. f k = f x) ts" if "k \<in> set ys" for k
    using that set_eq dts dys by (simp add: filter_same_key)
  ultimately have "sort_key f ts = ys"
    using assms(2) by (intro properties_for_sort_key) auto
  then show ?thesis
    by (simp add: f_def)
qed

lemma orderExample_entry: "(''a.go'', orderLineMap) \<in> set (aggregate {1, 2, 3} orderExample)"
  by code_simp

lemma orderExample_thread: "orderThread \<in> set (prepareThreads insertionSortSlice orderLineMap)"
  by code_simp




text \<open>
  Claim C8. Every thread handed to the injector has at least one comment, and the
  identifier of each of its comments is in the unresolved set.
\<close>

theorem threads_nonempty_and_unresolved:
  assumes "sortSliceContract sortSlice"
    and "(path, lineMap) \<in> set (aggregate unresolvedIDs cs)"
    and "th \<in> set (prepareThreads sortSlice lineMap)"
  shows "comments th \<noteq> [] \<and> (\<forall>c\<in>set (comments th). id_c c \<in> unresolvedIDs)"
proof -
  obtain ln t where entry: "(ln, t) \<in> set lineMap"
    and th: "th = t\<lparr>comments := sortSlice (comments t)\<rparr>"
    using assms(3) by (auto simp: set_prepareThreads)
  define ks where "ks = surviving unresolvedIDs path ln cs"
  have ks: "ks \<noteq> []" and t: "t = \<lparr>line = ln, comments = map newCommentInfo ks\<rparr>"
    unfolding ks_def using aggregate_entry [OF assms(2) entry] by simp_all
  have m: "mset (comments th) = mset (map newCommentInfo ks)"
    using assms(1) by (simp add: th t sortSliceContract_def)
  then have "set (comments th) = newCommentInfo ` set ks"
    by (metis mset_eq_setD set_map)
  moreover have "\<forall>c\<in>set ks. id_c (newCommentInfo c) \<in> unresolvedIDs"
    by (simp add: ks_def surviving_def newCommentInfo_def)
  moreover have "comments th \<noteq> []"
    using m ks by auto
  ultimately show ?thesis by auto
qed

theorem threads_nonempty_and_unresolved_witness:
  "sortSliceContract insertionSortSlice
   \<and> (''a.go'', orderLineMap) \<in> set (aggregate {1, 2, 3} orderExample)
   \<and> orderThread \<in> set (prepareThreads insertionSortSlice orderLineMap)
   \<and> comments orderThread \<noteq> []
   \<and> list_all (\<lambda>c. id_c c \<in> {1, 2, 3}) (comments orderThread)"
  using threads_nonempty_and_unresolved
    [OF insertionSortSlice_contract orderExample_entry orderExample_thread]
    insertionSortSlice_contract orderExample_entry orderExample_thread
  by (simp add: list_all_iff)

text \<open>
  Claim C1. The threads of a file are visited in strictly descending order of their line;
  the result is the original sequence with every expectedLines line replaced by its block, the
  line itself and the end marker. For each thread in range, the block stands after the
  lines before the anchor and the insertions of the lower lines only, and the original line
  follows it at once.
\<close>

theorem descending_injection_keeps_anchor_lines:
  assumes "(path, lineMap) \<in> set (aggregate unresolvedIDs cs)"
  shows "sorted_wrt (\<lambda>a b. line b < line a) (prepareThreads sortSlice lineMap)
    \<and> fst (injectLoop path (prepareThreads sortSlice lineMap) src)
        = expectedLines (prepareThreads sortSlice lineMap) 1 src
    \<and> (\<forall>th\<in>set (prepareThreads sortSlice lineMap).
          1 \<le> line th \<and> line th \<le> int (length src) \<longrightarrow>
          (\<exists>before after.
             fst (injectLoop path (prepareThreads sortSlice lineMap) src)
               = before @ buildBlock (comments th)
                 @ [src ! nat (line th - 1), ''>>>>>>> END REVIEW''] @ after
             \<and> length before = nat (line th - 1)
                 + (\<Sum>t\<leftarrow>filter (\<lambda>t. 1 \<le> line t \<and> line t < line th)
                                (prepareThreads sortSlice lineMap).
                      length (comments t) + 3)))"
proof -
  define threads where "threads = prepareThreads sortSlice lineMap"
  have sorted: "sorted_wrt (\<lambda>a b. line b < line a) threads"
    unfolding threads_def using aggregate_lineMap [OF assms] by (rule prepareThreads_sorted)
  have ann: "fst (injectLoop path threads src) = expectedLines threads 1 src"
    using sorted by (rule injectLoop_expectedLines)
  have "\<exists>before after.
          expectedLines threads 1 src
            = before @ buildBlock (comments th)
              @ [src ! nat (line th - 1), ''>>>>>>> END REVIEW''] @ after
          \<and> length before = nat (line th - 1)
              + (\<Sum>t\<leftarrow>filter (\<lambda>t. 1 \<le> line t \<and> line t < line th) threads.
                   length (comments t) + 3)"
    if th: "th \<in> set threads" and ge: "1 \<le> line th" and le: "line th \<le> int (length src)" for th
  proof -
    define i where "i = nat (line th - 1)"
    have i: "i < length src" "1 + int i = line th"
      using ge le by (auto simp: i_def)
    have src: "src = take i src @ src ! i # drop (Suc i) src"
      using i(1) by (simp add: id_take_nth_drop [symmetric])
    have found: "find (\<lambda>t. line t = line th) threads = Some th"
      using strictly_descending_distinct [OF sorted] th by (rule find_by_line)
    have "expectedLines threads 1 src
        = expectedLines threads 1 (take i src)
          @ expectedLines threads (1 + int i) (src ! i # drop (Suc i) src)"
      using i(1) by (subst src, subst expectedLines_append) simp
    then have split: "expectedLines threads 1 src
        = expectedLines threads 1 (take i src) @ buildBlock (comments th)
          @ [src ! i, ''>>>>>>> END REVIEW''] @ expectedLines threads (line th + 1) (drop (Suc i) src)"
      using found i(2) by simp
    have "length (expectedLines threads 1 (take i src))
        = length (fst (injectLoop path threads (take i src)))"
      using injectLoop_expectedLines [OF sorted] by simp
    also have "\<dots> = length (take i src)
        + (\<Sum>t\<leftarrow>filter (\<lambda>t. 1 \<le> line t \<and> line t \<le> int (length (take i src))) threads.
             length (comments t) + 3)"
      using sorted by (rule length_injectLoop)
    also have "filter (\<lambda>t. 1 \<le> line t \<and> line t \<le> int (length (take i src))) threads
        = filter (\<lambda>t. 1 \<le> line t \<and> line t < line th) threads"
      using i by (intro filter_cong) auto
    finally have "length (expectedLines threads 1 (take i src)) = i
        + (\<Sum>t\<leftarrow>filter (\<lambda>t. 1 \<le> line t \<and> line t < line th) threads.
             length (comments t) + 3)"
      using i(1) by simp
    with split show ?thesis
      unfolding i_def by blast
  qed
  with sorted ann show ?thesis
    unfolding threads_def by auto
qed

theorem descending_injection_keeps_anchor_lines_witness:
  "(''a.go'', stabilityLineMap) \<in> set (aggregate {1, 2, 3} stabilityExample)
   \<and> map line (prepareThreads insertionSortSlice stabilityLineMap) = [8, 5, 2]
   \<and> fst (injectLoop ''a.go'' (prepareThreads insertionSortSlice stabilityLineMap) eightLines)
       = [''l1'',
          ''<<<<<<< REVIEW THREAD (1)'', ''2024-03-07 09:03 alice: note'', ''======='',
          ''l2'', ''>>>>>>> END REVIEW'',
          ''l3'', ''l4'',
          ''<<<<<<< REVIEW THREAD (1)'', ''2024-03-07 09:01 alice: note'', ''======='',
          ''l5'', ''>>>>>>> END REVIEW'',
          ''l6'', ''l7'',
          ''<<<<<<< REVIEW THREAD (1)'', ''2024-03-07 09:02 alice: note'', ''======='',
          ''l8'', ''>>>>>>> END REVIEW'']"
proof -
  have entry: "(''a.go'', stabilityLineMap) \<in> set (aggregate {1, 2, 3} stabilityExample)"
    by code_simp
  have order: "map line (prepareThreads insertionSortSlice stabilityLineMap) = [8, 5, 2]"
    by code_simp
  have "fst (injectLoop ''a.go'' (prepareThreads insertionSortSlice stabilityLineMap) eightLines)
      = expectedLines (prepareThreads insertionSortSlice stabilityLineMap) 1 eightLines"
    using descending_injection_keeps_anchor_lines [OF entry] by blast
  also have "\<dots> = [''l1'',
          ''<<<<<<< REVIEW THREAD (1)'', ''2024-03-07 09:03 alice: note'', ''======='',
          ''l2'', ''>>>>>>> END REVIEW'',
          ''l3'', ''l4'',
          ''<<<<<<< REVIEW THREAD (1)'', ''2024-03-07 09:01 alice: note'', ''======='',
          ''l5'', ''>>>>>>> END REVIEW'',
          ''l6'', ''l7'',
          ''<<<<<<< REVIEW THREAD (1)'', ''2024-03-07 09:02 alice: note'', ''======='',
          ''l8'', ''>>>>>>> END REVIEW'']"
    by code_simp
  finally show ?thesis
    using entry order by simp
qed

section \<open>Reading, rendering and writing the file\<close>

lemma injectThreads_ok:
  assumes "files w path = Some data" and "ScanLines data = Inr src"
  shows "injectThreads path threads True w =
      (None, w\<lparr>logs := logs w @ snd (injectLoop path threads src),
               stdout := stdout w
                 @ ((''--- '' @ path @ '' (dry-run)'' @ [CHR 0x0A])
                    # map renderLine (enumerate 1 (fst (injectLoop path threads src))))\<rparr>)"
    and "path \<notin> readonly w \<Longrightarrow> injectThreads path threads False w =
      (None, w\<lparr>logs := logs w @ snd (injectLoop path threads src),
               files := (files w)(path \<mapsto>
                 Join (fst (injectLoop path threads src)) [CHR 0x0A] @ [CHR 0x0A])\<rparr>)"
    and "path \<in> readonly w \<Longrightarrow> injectThreads path threads False w =
      (Some WriteFileError, w\<lparr>logs := logs w @ snd (injectLoop path threads src)\<rparr>)"
  using assms by (simp_all add: injectThreads_def Let_def split: prod.splits)

lemma injectThreads_dry_files: "files (snd (injectThreads path threads True w)) = files w"
  by (simp add: injectThreads_def Let_def split: option.splits sum.splits prod.splits)

text \<open>
  The two early returns of \<^verbatim>\<open>injectThreads\<close> (lines 244-246 and 252-254): a file that
  cannot be read, or that holds a line too long for the scanner, is reported and left alone.
\<close>

lemma injectThreads_read_error:
  "files w path = None \<Longrightarrow> injectThreads path threads dry w = (Some ReadFileError, w)"
  by (simp add: injectThreads_def)

lemma injectThreads_scan_error:
  "files w path = Some data \<Longrightarrow> ScanLines data = Inl e \<Longrightarrow>
   injectThreads path threads dry w = (Some e, w)"
  by (simp add: injectThreads_def)

lemma scanFrom_no_line_feed:
  "CHR 0x0A \<notin> set s \<Longrightarrow>
   scanFrom cur s =
     (if cur @ s = [] then Inr []
      else if length (cur @ s) > maxLineBytes then Inl ErrTooLong
      else Inr [dropCR (cur @ s)])"
  by (induction s arbitrary: cur) auto

lemma long_line_is_an_error: "ScanLines (replicate 65536 (CHR ''a'')) = Inl ErrTooLong"
  by (simp add: ScanLines_def scanFrom_no_line_feed maxLineBytes_def)

text \<open>
  A dry run of the whole driver leaves every file as it was, in whatever order the files
  are visited.
\<close>

lemma injectFile_dry_files: "files (injectFile sortSlice True w entry) = files w"
proof -
  have "files (snd (injectThreads (fst entry) (prepareThreads sortSlice (snd entry)) True w))
      = files w"
    by (rule injectThreads_dry_files)
  then show ?thesis
    by (auto simp: injectFile_def split: prod.splits option.splits)
qed

lemma mainFrom_dry_files:
  "files (mainFrom sortSlice rangeOrder True unresolvedIDs cs w) = files w"
proof -
  have "files (foldl (injectFile sortSlice True) w0 ft) = files w0" for w0 ft
    by (induction ft arbitrary: w0) (simp_all add: injectFile_dry_files)
  then show ?thesis
    by (simp add: mainFrom_def Let_def)
qed

lemma fourLines_scan: "ScanLines fourLinesData = Inr [''l1'', ''l2'', ''l3'', ''l4'']"
  by (simp add: ScanLines_def fourLinesData_def maxLineBytes_def dropCR_def)

lemma fourLines_file: "files (worldWith fourLinesData) ''a.go'' = Some fourLinesData"
  by (simp add: worldWith_def)

text \<open>
  Claim C6. A thread whose index is outside the sequence as it stands when the thread is
  visited adds a diagnostic and nothing else: the lines, the result of the call, the file
  and the output are those of the run without that thread, and the threads before and after
  it are processed as usual. The call does not fail because of it.
\<close>

theorem vanished_thread_is_skipped:
  assumes "files w path = Some data" and "ScanLines data = Inr src"
    and "line th < 1 \<or> int (length (fst (injectLoop path before src))) < line th"
  shows "injectLoop path (before @ th # after) src =
      (fst (injectLoop path (before @ after) src),
       snd (injectLoop path before src)
         @ LineVanished path (line th)
           # snd (injectLoop path after (fst (injectLoop path before src))))
    \<and> fst (injectThreads path (before @ th # after) dry w)
        = fst (injectThreads path (before @ after) dry w)
    \<and> files (snd (injectThreads path (before @ th # after) dry w))
        = files (snd (injectThreads path (before @ after) dry w))
    \<and> stdout (snd (injectThreads path (before @ th # after) dry w))
        = stdout (snd (injectThreads path (before @ after) dry w))
    \<and> LineVanished path (line th)
        \<in> set (logs (snd (injectThreads path (before @ th # after) dry w)))
    \<and> (dry \<or> path \<notin> readonly w \<longrightarrow>
         fst (injectThreads path (before @ th # after) dry w) = None)"
proof -
  have skip: "injectLoop path (th # after) (fst (injectLoop path before src)) =
      (fst (injectLoop path after (fst (injectLoop path before src))),
       LineVanished path (line th)
         # snd (injectLoop path after (fst (injectLoop path before src))))"
    using assms(3) by (rule injectLoop_skip)
  have loop: "injectLoop path (before @ th # after) src =
      (fst (injectLoop path (before @ after) src),
       snd (injectLoop path before src) @ LineVanished path (line th)
         # snd (injectLoop path after (fst (injectLoop path before src))))"
    by (simp add: injectLoop_app [of path before] skip)
  show ?thesis
  proof (cases dry)
    case True
    then show ?thesis
      using loop injectThreads_ok(1) [OF assms(1,2)] by simp
  next
    case False
    then show ?thesis
      using loop injectThreads_ok(2,3) [OF assms(1,2)]
      by (cases "path \<in> readonly w") simp_all
  qed
qed

theorem vanished_thread_is_skipped_witness:
  "files (worldWith fourLinesData) ''a.go'' = Some fourLinesData
   \<and> ScanLines fourLinesData = Inr [''l1'', ''l2'', ''l3'', ''l4'']
   \<and> int (length (fst (injectLoop ''a.go'' [] [''l1'', ''l2'', ''l3'', ''l4'']))) < line farThread
   \<and> fst (injectThreads ''a.go'' ([] @ farThread # [exampleThread]) False (worldWith fourLinesData))
       = None
   \<and> files (snd (injectThreads ''a.go'' ([] @ farThread # [exampleThread]) False
         (worldWith fourLinesData)))
       = files (snd (injectThreads ''a.go'' ([] @ [exampleThread]) False (worldWith fourLinesData)))
   \<and> logs (snd (injectThreads ''a.go'' ([] @ farThread # [exampleThread]) False
         (worldWith fourLinesData)))
       = [LineVanished ''a.go'' 10]"
proof -
  have far: "int (length (fst (injectLoop ''a.go'' [] [''l1'', ''l2'', ''l3'', ''l4''])))
      < line farThread"
    by (simp add: farThread_def)
  then have far': "line farThread < 1
      \<or> int (length (fst (injectLoop ''a.go'' [] [''l1'', ''l2'', ''l3'', ''l4''])))
          < line farThread"
    by (rule disjI2)
  have writable: "''a.go'' \<notin> readonly (worldWith fourLinesData)"
    by (simp add: worldWith_def)
  note skipped = vanished_thread_is_skipped
    [OF fourLines_file fourLines_scan far', of "[exampleThread]" False]
  have ok: "fst (injectThreads ''a.go'' ([] @ farThread # [exampleThread]) False
      (worldWith fourLinesData)) = None"
    using skipped writable by blast
  have same: "files (snd (injectThreads ''a.go'' ([] @ farThread # [exampleThread]) False
         (worldWith fourLinesData)))
       = files (snd (injectThreads ''a.go'' ([] @ [exampleThread]) False (worldWith fourLinesData)))"
    using skipped by blast
  have "snd (injectLoop ''a.go'' ([] @ farThread # [exampleThread])
      [''l1'', ''l2'', ''l3'', ''l4'']) = [LineVanished ''a.go'' 10]"
    by code_simp
  then have lg: "logs (snd (injectThreads ''a.go'' ([] @ farThread # [exampleThread]) False
         (worldWith fourLinesData))) = [LineVanished ''a.go'' 10]"
    using injectThreads_ok(2) [OF fourLines_file fourLines_scan writable]
    by (simp add: worldWith_def)
  show ?thesis
    using fourLines_file fourLines_scan far ok same lg by (intro conjI)
qed

lemma lineFeeds_append: "lineFeeds (s @ t) = lineFeeds s + lineFeeds t"
  by (simp add: lineFeeds_def)

lemma lineFeeds_none: "CHR 0x0A \<notin> set s \<Longrightarrow> lineFeeds s = 0"
  by (auto simp: lineFeeds_def filter_empty_conv)

lemma lineFeeds_Cons:
  "lineFeeds (c # s) = (if c = CHR 0x0A then 1 else 0) + lineFeeds s"
  by (simp add: lineFeeds_def)

lemma lineFeeds_Nil: "lineFeeds [] = 0"
  by (simp add: lineFeeds_def)

lemma lineFeeds_concat: "lineFeeds (concat chunks) = sum_list (map lineFeeds chunks)"
  by (induction chunks) (simp_all add: lineFeeds_def)

lemma set_dropCR: "set (dropCR l) \<subseteq> set l"
  by (auto simp: dropCR_def dest: in_set_butlastD)

lemma scanFrom_lines:
  "scanFrom cur s = Inr ls \<Longrightarrow> CHR 0x0A \<notin> set cur \<Longrightarrow> \<forall>l\<in>set ls. CHR 0x0A \<notin> set l"
proof (induction s arbitrary: cur ls)
  case Nil
  then show ?case
    using set_dropCR [of cur] by (auto split: if_splits)
next
  case (Cons c s)
  show ?case
  proof (cases "c = CHR 0x0A")
    case True
    then obtain rest where rest: "scanFrom [] s = Inr rest" and ls: "ls = dropCR cur # rest"
      using Cons.prems(1) by (auto split: if_splits sum.splits)
    have "\<forall>l\<in>set rest. CHR 0x0A \<notin> set l"
      using rest by (rule Cons.IH) simp
    then show ?thesis
      using ls Cons.prems(2) set_dropCR [of cur] by auto
  next
    case False
    then have "scanFrom (cur @ [c]) s = Inr ls"
      using Cons.prems(1) by simp
    then show ?thesis
      using Cons.IH [of "cur @ [c]" ls] False Cons.prems(2) by simp
  qed
qed

lemma ScanLines_lines: "ScanLines data = Inr src \<Longrightarrow> \<forall>l\<in>set src. CHR 0x0A \<notin> set l"
  using scanFrom_lines [of "[]" data src] by (simp add: ScanLines_def)

lemma digitChar_digit: "d < 10 \<Longrightarrow> digitChar d \<in> set ''0123456789''"
  unfolding digitChar_def by (rule nth_mem) simp

lemma set_decimal: "set (decimal n) \<subseteq> set ''0123456789''"
proof (induction n rule: decimal.induct)
  case (1 n)
  show ?case
  proof (cases "n < 10")
    case True
    then show ?thesis
      using digitChar_digit [of n] by (subst decimal.simps) simp
  next
    case False
    then show ?thesis
      using "1.IH" digitChar_digit [of "n mod 10"] by (subst decimal.simps) simp
  qed
qed

lemma decimal_no_line_feed: "CHR 0x0A \<notin> set (decimal n)"
  using set_decimal [of n] by auto

lemma appendInt_no_line_feed: "CHR 0x0A \<notin> set (appendInt x width)"
  by (auto simp: appendInt_def Let_def decimal_no_line_feed)

lemma Format_no_line_feed: "CHR 0x0A \<notin> set (Format t)"
  by (simp add: Format_def appendInt_no_line_feed)

lemma sanitize_no_line_feed: "CHR 0x0A \<notin> set (sanitize s)"
  using sanitize_clean [of s] by auto

lemma commentLine_no_line_feed:
  "CHR 0x0A \<notin> set (user c) \<Longrightarrow> CHR 0x0A \<notin> set (commentLine c)"
  by (simp add: commentLine_def Format_no_line_feed sanitize_no_line_feed)

lemma buildBlock_no_line_feed:
  assumes "\<forall>c\<in>set cs. CHR 0x0A \<notin> set (user c)"
  shows "\<forall>l\<in>set (buildBlock cs). CHR 0x0A \<notin> set l"
  using assms by (auto simp: buildBlock_eq decimal_no_line_feed commentLine_no_line_feed)

lemma injectLoop_no_line_feed:
  assumes "\<forall>t\<in>set threads. \<forall>c\<in>set (comments t). CHR 0x0A \<notin> set (user c)"
    and "\<forall>l\<in>set src. CHR 0x0A \<notin> set l"
  shows "\<forall>l\<in>set (fst (injectLoop path threads src)). CHR 0x0A \<notin> set l"
  using assms
proof (induction threads arbitrary: src)
  case Nil
  then show ?case by simp
next
  case (Cons th threads)
  have users: "\<forall>t\<in>set threads. \<forall>c\<in>set (comments t). CHR 0x0A \<notin> set (user c)"
    and block: "\<forall>l\<in>set (buildBlock (comments th)). CHR 0x0A \<notin> set l"
    using Cons.prems(1) buildBlock_no_line_feed [of "comments th"] by simp_all
  show ?case
  proof (cases "line th < 1 \<or> int (length src) < line th")
    case True
    then show ?thesis
      using Cons.IH [OF users Cons.prems(2)] by (simp add: injectLoop_skip)
  next
    case False
    then have ge: "1 \<le> line th" and le: "line th \<le> int (length src)"
      by simp_all
    define src' where "src' = take (nat (line th - 1)) src
       @ buildBlock (comments th) @ [src ! nat (line th - 1), ''>>>>>>> END REVIEW'']
       @ drop (nat (line th)) src"
    have "nat (line th - 1) < length src"
      using ge le by linarith
    then have "src ! nat (line th - 1) \<in> set src"
      by (rule nth_mem)
    then have "\<forall>l\<in>set src'. CHR 0x0A \<notin> set l"
      using Cons.prems(2) block
      by (auto simp: src'_def dest: in_set_takeD in_set_dropD)
    then have "\<forall>l\<in>set (fst (injectLoop path threads src')). CHR 0x0A \<notin> set l"
      by (rule Cons.IH [OF users])
    moreover have "injectLoop path (th # threads) src = injectLoop path threads src'"
      unfolding src'_def using ge le by (rule injectLoop_apply)
    ultimately show ?thesis by simp
  qed
qed

lemma lineFeeds_render:
  assumes "\<forall>l\<in>set ls. CHR 0x0A \<notin> set l"
  shows "sum_list (map lineFeeds
           (map (\<lambda>(n, l). padLeft 6 (decimal n) @ '' '' @ l @ [CHR 0x0A]) (enumerate k ls)))
         = length ls"
  using assms
proof (induction ls arbitrary: k)
  case Nil
  then show ?case by simp
next
  case (Cons l ls)
  have "CHR 0x0A \<notin> set (padLeft 6 (decimal k))"
    by (auto simp: padLeft_def decimal_no_line_feed)
  moreover have "CHR 0x0A \<notin> set l"
    using Cons.prems by simp
  ultimately have "lineFeeds (padLeft 6 (decimal k) @ '' '' @ l @ [CHR 0x0A]) = 1"
    by (simp add: lineFeeds_append lineFeeds_none lineFeeds_Cons lineFeeds_Nil)
  then show ?case
    using Cons by simp
qed

lemma renderLine_eq:
  "map renderLine xs = map (\<lambda>(n, l). padLeft 6 (decimal n) @ '' '' @ l @ [CHR 0x0A]) xs"
  by (simp add: renderLine_def case_prod_beta)

text \<open>
  Claim C7, as the code has it. A dry run leaves every file as it was. When the file is
  read and the threads are in descending order (as \<^verbatim>\<open>main\<close> passes them), the output is
  the header line \<^verbatim>\<open>--- path (dry-run)\<close> followed by one numbered line per line of the
  result. For a path and author logins without a line feed, the numbered lines are as many
  lines of text as the file has lines plus, for every thread in range, the number of its
  comments plus three; the whole output has one line more, the header.
\<close>

theorem dry_run_is_pure_and_counts_lines:
  "files (snd (injectThreads path threads True w)) = files w
   \<and> (files w path = Some data \<and> ScanLines data = Inr src
        \<and> sorted_wrt (\<lambda>a b. line b < line a) threads
        \<and> CHR 0x0A \<notin> set path
        \<and> (\<forall>t\<in>set threads. \<forall>c\<in>set (comments t). CHR 0x0A \<notin> set (user c)) \<longrightarrow>
        stdout (snd (injectThreads path threads True w))
          = stdout w @ ((''--- '' @ path @ '' (dry-run)'' @ [CHR 0x0A])
              # map (\<lambda>(n, l). padLeft 6 (decimal n) @ '' '' @ l @ [CHR 0x0A])
                  (enumerate 1 (fst (injectLoop path threads src))))
        \<and> lineFeeds (concat (map (\<lambda>(n, l). padLeft 6 (decimal n) @ '' '' @ l @ [CHR 0x0A])
                  (enumerate 1 (fst (injectLoop path threads src)))))
          = length src
            + (\<Sum>t\<leftarrow>filter (\<lambda>t. 1 \<le> line t \<and> line t \<le> int (length src)) threads.
                 length (comments t) + 3)
        \<and> lineFeeds (concat ((''--- '' @ path @ '' (dry-run)'' @ [CHR 0x0A])
              # map (\<lambda>(n, l). padLeft 6 (decimal n) @ '' '' @ l @ [CHR 0x0A])
                  (enumerate 1 (fst (injectLoop path threads src)))))
          = 1 + length src
            + (\<Sum>t\<leftarrow>filter (\<lambda>t. 1 \<le> line t \<and> line t \<le> int (length src)) threads.
                 length (comments t) + 3))"
proof -
  have numbered: "lineFeeds (concat (map (\<lambda>(n, l). padLeft 6 (decimal n) @ '' '' @ l @ [CHR 0x0A])
                  (enumerate 1 (fst (injectLoop path threads src)))))
          = length src
            + (\<Sum>t\<leftarrow>filter (\<lambda>t. 1 \<le> line t \<and> line t \<le> int (length src)) threads.
                 length (comments t) + 3)"
    if scan: "ScanLines data = Inr src"
      and sorted: "sorted_wrt (\<lambda>a b. line b < line a) threads"
      and users: "\<forall>t\<in>set threads. \<forall>c\<in>set (comments t). CHR 0x0A \<notin> set (user c)"
  proof -
    have "\<forall>l\<in>set (fst (injectLoop path threads src)). CHR 0x0A \<notin> set l"
      using users ScanLines_lines [OF scan] by (rule injectLoop_no_line_feed)
    then have "sum_list (map lineFeeds
           (map (\<lambda>(n, l). padLeft 6 (decimal n) @ '' '' @ l @ [CHR 0x0A])
              (enumerate 1 (fst (injectLoop path threads src)))))
         = length (fst (injectLoop path threads src))"
      by (rule lineFeeds_render)
    then show ?thesis
      using length_injectLoop [OF sorted, of path src]
      by (simp only: lineFeeds_concat)
  qed
  have header: "lineFeeds (''--- '' @ path @ '' (dry-run)'' @ [CHR 0x0A]) = 1"
    if path: "CHR 0x0A \<notin> set path"
    using path by (simp add: lineFeeds_append lineFeeds_none lineFeeds_Cons lineFeeds_Nil)
  have count: "lineFeeds (concat ((''--- '' @ path @ '' (dry-run)'' @ [CHR 0x0A])
              # map (\<lambda>(n, l). padLeft 6 (decimal n) @ '' '' @ l @ [CHR 0x0A])
                  (enumerate 1 (fst (injectLoop path threads src)))))
          = 1 + length src
            + (\<Sum>t\<leftarrow>filter (\<lambda>t. 1 \<le> line t \<and> line t \<le> int (length src)) threads.
                 length (comments t) + 3)"
    if scan: "ScanLines data = Inr src"
      and sorted: "sorted_wrt (\<lambda>a b. line b < line a) threads"
      and path: "CHR 0x0A \<notin> set path"
      and users: "\<forall>t\<in>set threads. \<forall>c\<in>set (comments t). CHR 0x0A \<notin> set (user c)"
    using numbered [OF scan sorted users] header [OF path]
    by (simp only: concat.simps lineFeeds_append)
  show ?thesis
    using numbered count
    by (simp add: injectThreads_dry_files injectThreads_ok(1) renderLine_eq)
qed

theorem dry_run_is_pure_and_counts_lines_witness:
  "files (worldWith fourLinesData) ''a.go'' = Some fourLinesData
   \<and> ScanLines fourLinesData = Inr [''l1'', ''l2'', ''l3'', ''l4'']
   \<and> sorted_wrt (\<lambda>a b. line b < line a) [farThread, exampleThread]
   \<and> CHR 0x0A \<notin> set ''a.go''
   \<and> list_all (\<lambda>t. list_all (\<lambda>c. CHR 0x0A \<notin> set (user c)) (comments t))
        [farThread, exampleThread]
   \<and> files (snd (injectThreads ''a.go'' [farThread, exampleThread] True (worldWith fourLinesData)))
       = files (worldWith fourLinesData)
   \<and> lineFeeds (concat (map (\<lambda>(n, l). padLeft 6 (decimal n) @ '' '' @ l @ [CHR 0x0A])
                  (enumerate 1 (fst (injectLoop ''a.go'' [farThread, exampleThread]
                     [''l1'', ''l2'', ''l3'', ''l4''])))))
       = 4 + (2 + 3)
   \<and> lineFeeds (concat ((''--- '' @ ''a.go'' @ '' (dry-run)'' @ [CHR 0x0A])
              # map (\<lambda>(n, l). padLeft 6 (decimal n) @ '' '' @ l @ [CHR 0x0A])
                  (enumerate 1 (fst (injectLoop ''a.go'' [farThread, exampleThread]
                     [''l1'', ''l2'', ''l3'', ''l4''])))))
       = 1 + 4 + (2 + 3)"
proof -
  have sorted: "sorted_wrt (\<lambda>a b. line b < line a) [farThread, exampleThread]"
    by (simp add: farThread_def exampleThread_def)
  have path: "CHR 0x0A \<notin> set ''a.go''"
    by simp
  have users: "\<forall>t\<in>set [farThread, exampleThread]. \<forall>c\<in>set (comments t). CHR 0x0A \<notin> set (user c)"
    by (simp add: farThread_def exampleThread_def exampleInfo_def)
  have range: "(\<Sum>t\<leftarrow>filter (\<lambda>t. 1 \<le> line t \<and> line t \<le> int (length [''l1'', ''l2'', ''l3'', ''l4'']))
        [farThread, exampleThread]. length (comments t) + 3) = 2 + 3"
    by (simp add: farThread_def exampleThread_def)
  show ?thesis
    using dry_run_is_pure_and_counts_lines
      [of "''a.go''" "[farThread, exampleThread]" "worldWith fourLinesData" fourLinesData
        "[''l1'', ''l2'', ''l3'', ''l4'']"]
      fourLines_file fourLines_scan sorted path users range
    by (simp add: list_all_iff)
qed

text \<open>
  Claim C7 as stated fails by the header line: for the file of four lines and one thread
  of two comments in range, the formula of the claim gives nine lines, and the output has
  ten.
\<close>

theorem dry_run_prints_a_header_line:
  "ScanLines fourLinesData = Inr [''l1'', ''l2'', ''l3'', ''l4'']
   \<and> length [''l1'', ''l2'', ''l3'', ''l4'']
       + (\<Sum>t\<leftarrow>filter (\<lambda>t. 1 \<le> line t \<and> line t \<le> int (length [''l1'', ''l2'', ''l3'', ''l4'']))
            [farThread, exampleThread]. length (comments t) + 3) = 9
   \<and> take 1 (stdout (snd (injectThreads ''a.go'' [farThread, exampleThread] True
         (worldWith fourLinesData))))
       = [''--- a.go (dry-run)'' @ [CHR 0x0A]]
   \<and> lineFeeds (concat (stdout (snd (injectThreads ''a.go'' [farThread, exampleThread] True
         (worldWith fourLinesData)))))
       = 10"
proof -
  have formula: "length [''l1'', ''l2'', ''l3'', ''l4'']
       + (\<Sum>t\<leftarrow>filter (\<lambda>t. 1 \<le> line t \<and> line t \<le> int (length [''l1'', ''l2'', ''l3'', ''l4'']))
            [farThread, exampleThread]. length (comments t) + 3) = 9"
    by (simp add: farThread_def exampleThread_def)
  have out: "stdout (snd (injectThreads ''a.go'' [farThread, exampleThread] True
         (worldWith fourLinesData)))
       = (''--- '' @ ''a.go'' @ '' (dry-run)'' @ [CHR 0x0A])
           # map renderLine (enumerate 1
               (fst (injectLoop ''a.go'' [farThread, exampleThread] [''l1'', ''l2'', ''l3'', ''l4''])))"
    using injectThreads_ok(1) [OF fourLines_file fourLines_scan, of "[farThread, exampleThread]"]
    by (simp add: worldWith_def)
  have count: "lineFeeds (concat ((''--- '' @ ''a.go'' @ '' (dry-run)'' @ [CHR 0x0A])
           # map renderLine (enumerate 1
               (fst (injectLoop ''a.go'' [farThread, exampleThread]
                  [''l1'', ''l2'', ''l3'', ''l4''])))))
       = 10"
    by code_simp
  show ?thesis
    using fourLines_scan formula count by (simp add: out)
qed

text \<open>
  Claim C10. When the file is read and scanned and the write is accepted, a run that is
  not dry writes the lines of the result joined by line feeds, with a final line feed; when
  every thread has vanished these are the scanned lines. The witness shows the three
  consequences: CR LF becomes LF, a missing final line feed is added, and the empty file
  becomes one line feed.
\<close>

theorem write_mode_rewrites_file:
  assumes "files w path = Some data" and "ScanLines data = Inr src" and "path \<notin> readonly w"
  shows "fst (injectThreads path threads False w) = None
    \<and> files (snd (injectThreads path threads False w))
        = (files w)(path \<mapsto> Join (fst (injectLoop path threads src)) [CHR 0x0A] @ [CHR 0x0A])
    \<and> ((\<forall>t\<in>set threads. line t < 1 \<or> int (length src) < line t) \<longrightarrow>
         files (snd (injectThreads path threads False w)) path
           = Some (Join src [CHR 0x0A] @ [CHR 0x0A]))"
  using injectThreads_ok(2) [OF assms] by (simp add: injectLoop_all_vanished)

theorem write_mode_rewrites_file_witness:
  "files (snd (injectThreads ''a.go'' [farThread] False
       (worldWith (''x'' @ [CHR 0x0D, CHR 0x0A] @ ''y'' @ [CHR 0x0D, CHR 0x0A])))) ''a.go''
     = Some (''x'' @ [CHR 0x0A] @ ''y'' @ [CHR 0x0A])
   \<and> files (snd (injectThreads ''a.go'' [farThread] False
       (worldWith (''x'' @ [CHR 0x0A] @ ''y'')))) ''a.go''
     = Some (''x'' @ [CHR 0x0A] @ ''y'' @ [CHR 0x0A])
   \<and> files (snd (injectThreads ''a.go'' [farThread] False (worldWith []))) ''a.go''
     = Some [CHR 0x0A]"
proof -
  have s1: "ScanLines (''x'' @ [CHR 0x0D, CHR 0x0A] @ ''y'' @ [CHR 0x0D, CHR 0x0A])
      = Inr [''x'', ''y'']"
    by (simp add: ScanLines_def maxLineBytes_def dropCR_def)
  have s2: "ScanLines (''x'' @ [CHR 0x0A] @ ''y'') = Inr [''x'', ''y'']"
    by (simp add: ScanLines_def maxLineBytes_def dropCR_def)
  have s3: "ScanLines [] = Inr []"
    by (simp add: ScanLines_def)
  have f: "files (worldWith data) ''a.go'' = Some data" for data
    by (simp add: worldWith_def)
  have r: "''a.go'' \<notin> readonly (worldWith data)" for data
    by (simp add: worldWith_def)
  have far2: "\<forall>t\<in>set [farThread]. line t < 1 \<or> int (length [''x'', ''y'']) < line t"
    by (simp add: farThread_def)
  have far0: "\<forall>t\<in>set [farThread]. line t < 1 \<or> int (length ([] :: string list)) < line t"
    by (simp add: farThread_def)
  have "files (snd (injectThreads ''a.go'' [farThread] False
       (worldWith (''x'' @ [CHR 0x0D, CHR 0x0A] @ ''y'' @ [CHR 0x0D, CHR 0x0A])))) ''a.go''
     = Some (Join [''x'', ''y''] [CHR 0x0A] @ [CHR 0x0A])"
    using write_mode_rewrites_file [OF f s1 r, of "[farThread]"] far2
    by blast
  moreover have "files (snd (injectThreads ''a.go'' [farThread] False
       (worldWith (''x'' @ [CHR 0x0A] @ ''y'')))) ''a.go''
     = Some (Join [''x'', ''y''] [CHR 0x0A] @ [CHR 0x0A])"
    using write_mode_rewrites_file [OF f s2 r, of "[farThread]"] far2
    by blast
  moreover have "files (snd (injectThreads ''a.go'' [farThread] False (worldWith []))) ''a.go''
     = Some (Join [] [CHR 0x0A] @ [CHR 0x0A])"
    using write_mode_rewrites_file [OF f s3 r, of "[farThread]"] far0
    by blast
  ultimately show ?thesis
    by simp
qed

end
